theory Spec2Isabelle
  imports Main "HOL-Library.Word"
begin

unbundle bit_operations_syntax

section \<open>Outcomes and lock events shared by both subsystems\<close>

text \<open>
  Every spinlock and sleeplock operation of the source is recorded, in program order, in a
  log carried by the state. The model follows one kernel thread; what other cores do
  between two of its steps is not part of it.
\<close>

datatype lock_id = BcacheLock | BucketLock nat | BufLock nat | KmemLock nat

datatype lock_event = Acquire lock_id | Release lock_id

text \<open>
  A kernel routine either returns, stops in \<open>panic\<close>, is suspended on a sleeplock that
  somebody holds (\<open>Blocked\<close>, with the index of the buffer), or leaves the defined
  behaviour of C (an array index outside its array, a division by zero).
\<close>

datatype 'a outcome = Returned 'a | Panicked string | Blocked nat | Undefined string

record kernel =
  locklog :: "lock_event list"

text \<open>
  Modelled from the spec: spinlock.c is absent. A SpinLock is a mutual-exclusion primitive
  for short critical sections; \<open>acquire\<close> and \<open>release\<close> are the two events in the log.
\<close>

definition acquire :: "lock_id \<Rightarrow> 'a kernel_scheme \<Rightarrow> 'a kernel_scheme" where
  "acquire l s = s\<lparr>locklog := locklog s @ [Acquire l]\<rparr>"

definition release :: "lock_id \<Rightarrow> 'a kernel_scheme \<Rightarrow> 'a kernel_scheme" where
  "release l s = s\<lparr>locklog := locklog s @ [Release l]\<rparr>"

text \<open>The events a routine appended to the log of \<open>s\<close> on its way to \<open>s'\<close>.\<close>

definition emitted :: "'a kernel_scheme \<Rightarrow> 'b kernel_scheme \<Rightarrow> lock_event list" where
  "emitted s s' = drop (length (locklog s)) (locklog s')"

section \<open>Buffer cache (kernel/bio.c)\<close>

text \<open>
  Modelled from the spec: \<open>struct buf\<close> (buf.h) is absent. A BufferEntry has the identity
  (device, block number), a validity flag, a reference count, a timestamp, a payload and
  an owned SleepLock; these are the fields bio.c uses. The unsigned 32-bit fields follow
  \<open>bget\<close>'s parameters (\<open>uint dev, uint blockno\<close>) and the tick counter. The sleeplock is
  the pid of its holder, if any.
\<close>

record buf =
  valid :: bool
  dev :: "32 word"
  blockno :: "32 word"
  lock :: "nat option"
  refcnt :: "32 word"
  time :: "32 word"
  data :: "8 word list"

text \<open>
  \<open>bcache\<close>: \<open>bucket[i].buf\<close> is a pointer into \<open>bcache.buf\<close>, kept as the index of
  the entry it points at; \<open>NBUCKET\<close> and \<open>NBUF\<close> are the lengths of the two arrays.
  The disk behind \<open>virtio_disk_rw\<close> is carried along as a map from (dev, blockno) to a block.
\<close>

record bcache = kernel +
  bucket :: "nat list"
  buf :: "buf list"
  evict :: "32 word"
  disk :: "32 word \<times> 32 word \<Rightarrow> 8 word list"

definition NBUCKET :: "bcache \<Rightarrow> nat" where
  "NBUCKET s = length (bucket s)"

definition NBUF :: "bcache \<Rightarrow> nat" where
  "NBUF s = length (buf s)"

text \<open>
  A C state has \<open>NBUCKET > 0\<close> (it is a modulus) and every bucket pointer inside the pool.
\<close>

definition bcache_wf :: "bcache \<Rightarrow> bool" where
  "bcache_wf s = (0 < length (bucket s) \<and> list_all (\<lambda>b. b < length (buf s)) (bucket s))"

text \<open>
  Static storage is zero-initialised; \<open>binit\<close> then seeds bucket \<open>i\<close> with \<open>&bcache.buf[i]\<close>
  and clears every \<open>time\<close>. The two array sizes and the initial disk are parameters.
\<close>

definition zero_buf :: buf where
  "zero_buf = \<lparr>valid = False, dev = 0, blockno = 0, lock = None, refcnt = 0, time = 0, data = []\<rparr>"

definition binit :: "nat \<Rightarrow> nat \<Rightarrow> (32 word \<times> 32 word \<Rightarrow> 8 word list) \<Rightarrow> bcache" where
  "binit nbuf nbucket dsk =
     \<lparr>locklog = [], bucket = [0..<nbucket],
      buf = map (\<lambda>b. b\<lparr>time := 0\<rparr>) (replicate nbuf zero_buf), evict = 0, disk = dsk\<rparr>"

text \<open>
  Modelled from the spec: sleeplock.c is absent. A SleepLock is a blocking mutual-exclusion
  primitive: on contention the caller suspends; at most one task holds it at a time.
  \<open>holdingsleep\<close> tells whether the calling process (pid \<open>p\<close>) is the holder.
\<close>

definition holdingsleep :: "nat \<Rightarrow> nat option \<Rightarrow> bool" where
  "holdingsleep p lk = (lk = Some p)"

definition acquiresleep :: "nat \<Rightarrow> nat \<Rightarrow> bcache \<Rightarrow> nat outcome \<times> bcache" where
  "acquiresleep p i s =
     (case lock (buf s ! i) of
        None \<Rightarrow> (Returned i, s\<lparr>locklog := locklog s @ [Acquire (BufLock i)],
                               buf := (buf s)[i := (buf s ! i)\<lparr>lock := Some p\<rparr>]\<rparr>)
      | Some q \<Rightarrow> (Blocked i, s))"

definition releasesleep :: "nat \<Rightarrow> bcache \<Rightarrow> bcache" where
  "releasesleep i s =
     s\<lparr>locklog := locklog s @ [Release (BufLock i)],
       buf := (buf s)[i := (buf s ! i)\<lparr>lock := None\<rparr>]\<rparr>"

text \<open>
  Modelled from the spec: the disk driver is absent. \<open>disk_rw(entry, is_write)\<close> either
  fills the payload from the underlying device or writes the payload to it, and is reliable.
\<close>

definition virtio_disk_rw :: "nat \<Rightarrow> bool \<Rightarrow> bcache \<Rightarrow> bcache" where
  "virtio_disk_rw i wr s =
     (let b = buf s ! i in
      if wr then s\<lparr>disk := (disk s)((dev b, blockno b) := data b)\<rparr>
      else s\<lparr>buf := (buf s)[i := b\<lparr>data := disk s (dev b, blockno b)\<rparr>]\<rparr>)"

subsection \<open>bget\<close>

text \<open>First loop of \<open>bget\<close>: the buckets, each under its own lock.\<close>

fun bget_buckets :: "32 word \<Rightarrow> 32 word \<Rightarrow> 32 word \<Rightarrow> nat list \<Rightarrow> bcache \<Rightarrow> nat option \<times> bcache" where
  "bget_buckets d bn t [] s = (None, s)"
| "bget_buckets d bn t (i # is) s =
     (let s1 = acquire (BucketLock i) s;
          b = bucket s1 ! i
      in if dev (buf s1 ! b) = d \<and> blockno (buf s1 ! b) = bn
         then (Some b,
               release (BucketLock i)
                 (s1\<lparr>buf := (buf s1)[b := (buf s1 ! b)\<lparr>refcnt := refcnt (buf s1 ! b) + 1, time := t\<rparr>]\<rparr>))
         else bget_buckets d bn t is (release (BucketLock i) s1))"

text \<open>Second loop: the whole pool, with \<open>bcache.lock\<close> held by the caller of the loop.\<close>

fun bget_scan :: "32 word \<Rightarrow> 32 word \<Rightarrow> 32 word \<Rightarrow> nat list \<Rightarrow> bcache \<Rightarrow> nat option \<times> bcache" where
  "bget_scan d bn t [] s = (None, s)"
| "bget_scan d bn t (i # is) s =
     (if dev (buf s ! i) = d \<and> blockno (buf s ! i) = bn
      then (let s1 = s\<lparr>buf := (buf s)[i := (buf s ! i)\<lparr>refcnt := refcnt (buf s ! i) + 1, time := t\<rparr>]\<rparr>;
                s2 = acquire (BucketLock (i mod NBUCKET s1)) s1;
                s3 = s2\<lparr>bucket := (bucket s2)[i mod NBUCKET s2 := i]\<rparr>;
                s4 = release (BucketLock (i mod NBUCKET s3)) s3
            in (Some i, release BcacheLock s4))
      else bget_scan d bn t is s)"

text \<open>Third loop: recycle an unused buffer, still under \<open>bcache.lock\<close>.\<close>

fun bget_recycle :: "32 word \<Rightarrow> 32 word \<Rightarrow> 32 word \<Rightarrow> nat list \<Rightarrow> bcache \<Rightarrow> nat option \<times> bcache" where
  "bget_recycle d bn t [] s = (None, s)"
| "bget_recycle d bn t (i # is) s =
     (if refcnt (buf s ! i) = 0
      then (Some i,
            release BcacheLock
              (s\<lparr>buf := (buf s)[i := (buf s ! i)\<lparr>dev := d, blockno := bn, valid := False,
                                                  refcnt := 1, time := t\<rparr>]\<rparr>))
      else bget_recycle d bn t is s)"

text \<open>
  \<open>bget\<close> for process \<open>p\<close> at tick count \<open>t\<close>. The result is the index of the buffer.
\<close>

definition bget :: "nat \<Rightarrow> 32 word \<Rightarrow> 32 word \<Rightarrow> 32 word \<Rightarrow> bcache \<Rightarrow> nat outcome \<times> bcache" where
  "bget p d bn t s =
     (case bget_buckets d bn t [0..<NBUCKET s] s of
        (Some b, s1) \<Rightarrow> acquiresleep p b s1
      | (None, s1) \<Rightarrow>
          (let s2 = acquire BcacheLock s1 in
           case bget_scan d bn t [0..<NBUF s2] s2 of
             (Some b, s3) \<Rightarrow> acquiresleep p b s3
           | (None, s3) \<Rightarrow>
               (case bget_recycle d bn t [0..<NBUF s3] s3 of
                  (Some b, s4) \<Rightarrow> acquiresleep p b s4
                | (None, s4) \<Rightarrow> (Panicked ''bget: no buffers'', s4))))"

subsection \<open>bread, bwrite, brelse, bpin, bunpin\<close>

definition bread :: "nat \<Rightarrow> 32 word \<Rightarrow> 32 word \<Rightarrow> 32 word \<Rightarrow> bcache \<Rightarrow> nat outcome \<times> bcache" where
  "bread p d bn t s =
     (case bget p d bn t s of
        (Returned b, s1) \<Rightarrow>
          (if \<not> valid (buf s1 ! b)
           then (let s2 = virtio_disk_rw b False s1
                 in (Returned b, s2\<lparr>buf := (buf s2)[b := (buf s2 ! b)\<lparr>valid := True\<rparr>]\<rparr>))
           else (Returned b, s1))
      | (r, s1) \<Rightarrow> (r, s1))"

definition bwrite :: "nat \<Rightarrow> nat \<Rightarrow> bcache \<Rightarrow> unit outcome \<times> bcache" where
  "bwrite p b s =
     (if \<not> holdingsleep p (lock (buf s ! b)) then (Panicked ''bwrite'', s)
      else (Returned (), virtio_disk_rw b True s))"

definition brelse :: "nat \<Rightarrow> nat \<Rightarrow> bcache \<Rightarrow> unit outcome \<times> bcache" where
  "brelse p b s =
     (if \<not> holdingsleep p (lock (buf s ! b)) then (Panicked ''brelse'', s)
      else (let s1 = releasesleep b s;
                s2 = acquire BcacheLock s1;
                s3 = s2\<lparr>buf := (buf s2)[b := (buf s2 ! b)\<lparr>refcnt := refcnt (buf s2 ! b) - 1\<rparr>]\<rparr>;
                s4 = (if refcnt (buf s3 ! b) = 0
                      then s3\<lparr>buf := (buf s3)[b := (buf s3 ! b)\<lparr>time := 0\<rparr>]\<rparr>
                      else s3)
            in (Returned (), release BcacheLock s4)))"

definition bpin :: "nat \<Rightarrow> bcache \<Rightarrow> bcache" where
  "bpin b s =
     (let s1 = acquire BcacheLock s;
          s2 = s1\<lparr>buf := (buf s1)[b := (buf s1 ! b)\<lparr>refcnt := refcnt (buf s1 ! b) + 1\<rparr>]\<rparr>
      in release BcacheLock s2)"

definition bunpin :: "nat \<Rightarrow> bcache \<Rightarrow> bcache" where
  "bunpin b s =
     (let s1 = acquire BcacheLock s;
          s2 = s1\<lparr>buf := (buf s1)[b := (buf s1 ! b)\<lparr>refcnt := refcnt (buf s1 ! b) - 1\<rparr>]\<rparr>
      in release BcacheLock s2)"

section \<open>Physical page allocator (kernel/kalloc.c)\<close>

text \<open>
  The memory layout constants come from headers and the linker script that are not among
  the sources, so they are parameters: \<open>kend\<close> is \<open>end\<close>, the first address after the
  kernel. \<open>NCPU\<close> is the length of the \<open>kmem\<close> array. \<open>PGSIZE\<close> (riscv.h) is 4096, as
  the comments of kalloc.c say ("Allocates whole 4096-byte pages").
\<close>

record memlayout =
  kend :: "64 word"
  PHYSTOP :: "64 word"
  NMEM :: "64 word"

definition PGSIZE :: nat where
  "PGSIZE = 4096"

text \<open>
  \<open>kmem[i].freelist\<close> is the address of the first free page of core \<open>i\<close>, or 0.
  \<open>run_next pa\<close> is the \<open>next\<close> field of the \<open>struct run\<close> at the start of the page
  at \<open>pa\<close>: the lists are threaded through the free pages themselves.
\<close>

record kmem = kernel +
  freelist :: "64 word list"
  run_next :: "64 word \<Rightarrow> 64 word"

definition NCPU :: "kmem \<Rightarrow> nat" where
  "NCPU s = length (freelist s)"

text \<open>\<open>memset(pa, c, PGSIZE)\<close>, as far as the \<open>next\<close> field of the page is concerned.\<close>

definition memset_page :: "64 word \<Rightarrow> 8 word \<Rightarrow> kmem \<Rightarrow> kmem" where
  "memset_page pa c s =
     s\<lparr>run_next := (run_next s)(pa := word_rcat (replicate 8 c))\<rparr>"

text \<open>The quotient \<open>((uint64)((char*)pa - end)) / tmp\<close> of \<open>kfree\<close>, before it is stored in an \<open>int\<close>.\<close>

definition owner :: "memlayout \<Rightarrow> 64 word \<Rightarrow> 64 word" where
  "owner L pa = (pa - kend L) div NMEM L"

text \<open>The test at the head of \<open>kfree\<close>, negated: the address is accepted.\<close>

definition kfree_accepts :: "memlayout \<Rightarrow> 64 word \<Rightarrow> bool" where
  "kfree_accepts L pa = (\<not> (unat pa mod PGSIZE \<noteq> 0 \<or> pa < kend L \<or> PHYSTOP L \<le> pa))"

definition kfree :: "memlayout \<Rightarrow> 64 word \<Rightarrow> kmem \<Rightarrow> unit outcome \<times> kmem" where
  "kfree L pa s =
     (if unat pa mod PGSIZE \<noteq> 0 \<or> pa < kend L \<or> PHYSTOP L \<le> pa then (Panicked ''kfree'', s)
      else
        (let s1 = memset_page pa 1 s;
             tmp = NMEM L
         in if tmp = 0 then (Undefined ''kfree: division by zero'', s1)
            else
              (let i = sint (ucast ((pa - kend L) div tmp) :: 32 word)
               in if i < 0 \<or> int (NCPU s1) \<le> i then (Undefined ''kfree: kmem index'', s1)
                  else
                    (let s2 = acquire (KmemLock (nat i)) s1;
                         s3 = s2\<lparr>run_next := (run_next s2)(pa := freelist s2 ! nat i)\<rparr>;
                         s4 = s3\<lparr>freelist := (freelist s3)[nat i := pa]\<rparr>
                     in (Returned (), release (KmemLock (nat i)) s4)))))"

text \<open>The fallback loop of \<open>kalloc\<close> over all cores, from core 0.\<close>

fun kalloc_steal :: "nat list \<Rightarrow> kmem \<Rightarrow> 64 word \<times> kmem" where
  "kalloc_steal [] s = (0, s)"
| "kalloc_steal (j # js) s =
     (let s1 = acquire (KmemLock j) s;
          r = freelist s1 ! j
      in if r \<noteq> 0
         then (r, release (KmemLock j) (s1\<lparr>freelist := (freelist s1)[j := run_next s1 r]\<rparr>))
         else kalloc_steal js (release (KmemLock j) s1))"

text \<open>
  \<open>kalloc\<close> on the core whose \<open>cpuid()\<close> is \<open>c\<close>. The result is the page address, 0 for
  none.
\<close>

definition kalloc :: "nat \<Rightarrow> kmem \<Rightarrow> 64 word outcome \<times> kmem" where
  "kalloc c s =
     (if NCPU s \<le> c then (Undefined ''kalloc: kmem index'', s)
      else
        (let s1 = acquire (KmemLock c) s;
             r = freelist s1 ! c;
             s2 = (if r \<noteq> 0 then s1\<lparr>freelist := (freelist s1)[c := run_next s1 r]\<rparr> else s1);
             s3 = release (KmemLock c) s2;
             (r', s4) = (if r = 0 then kalloc_steal [0..<NCPU s3] s3 else (r, s3));
             s5 = (if r' \<noteq> 0 then memset_page r' 5 s4 else s4)
         in (Returned r', s5)))"

subsection \<open>kinit and freerange\<close>

text \<open>
  Modelled from the spec: \<open>PGROUNDUP\<close> (riscv.h) is absent; initialization pushes every
  page-aligned address of a region, so the start of the region is rounded up to the next
  multiple of the page size.
\<close>

definition PGROUNDUP :: "64 word \<Rightarrow> 64 word" where
  "PGROUNDUP sz = (sz + word_of_nat PGSIZE - 1) AND NOT (word_of_nat PGSIZE - 1)"

text \<open>
  The loop of \<open>freerange\<close>. A pointer that would pass the end of the address space leaves
  the defined behaviour of C; a panic of \<open>kfree\<close> ends the loop.
\<close>

function freerange_loop :: "memlayout \<Rightarrow> 64 word \<Rightarrow> 64 word \<Rightarrow> kmem \<Rightarrow> unit outcome \<times> kmem" where
  "freerange_loop L p pa_end s =
     (if 2 ^ 64 \<le> unat p + PGSIZE then (Undefined ''freerange: pointer overflow'', s)
      else if p + word_of_nat PGSIZE \<le> pa_end
           then (case kfree L p s of
                   (Returned u, s') \<Rightarrow> freerange_loop L (p + word_of_nat PGSIZE) pa_end s'
                 | (r, s') \<Rightarrow> (r, s'))
           else (Returned (), s))"
  by pat_completeness auto
termination
proof (relation "measure (\<lambda>(L, p, pa_end, s). unat pa_end - unat p)")
  show "wf (measure (\<lambda>(L, p, pa_end, s). unat pa_end - unat p))" by simp
next
  fix L :: memlayout and p pa_end :: "64 word" and s :: kmem and x :: "unit outcome \<times> kmem"
    and r :: "unit outcome" and s' :: kmem and u :: unit
  assume no: "\<not> 2 ^ 64 \<le> unat p + PGSIZE" and le: "p + word_of_nat PGSIZE \<le> pa_end"
  have pg: "unat (word_of_nat PGSIZE :: 64 word) = PGSIZE"
    by (simp add: PGSIZE_def)
  have "unat p + unat (word_of_nat PGSIZE :: 64 word) < 2 ^ LENGTH(64)"
    using no by (simp add: pg)
  then have "unat (p + word_of_nat PGSIZE) = unat p + PGSIZE"
    by (simp only: unat_add_lem [THEN iffD1] pg)
  moreover have "unat (p + word_of_nat PGSIZE) \<le> unat pa_end"
    using le by (simp only: word_le_nat_alt)
  moreover have "0 < PGSIZE" by (simp add: PGSIZE_def)
  ultimately show "((L, p + word_of_nat PGSIZE, pa_end, s'), (L, p, pa_end, s))
      \<in> measure (\<lambda>(L, p, pa_end, s). unat pa_end - unat p)"
    by simp
qed

definition freerange :: "memlayout \<Rightarrow> 64 word \<Rightarrow> 64 word \<Rightarrow> kmem \<Rightarrow> unit outcome \<times> kmem" where
  "freerange L pa_start pa_end s = freerange_loop L (PGROUNDUP pa_start) pa_end s"

text \<open>\<open>kinit\<close>: core \<open>i\<close> receives the region of \<open>NMEM\<close> bytes that starts at \<open>end + NMEM*i\<close>.\<close>

fun kinit_loop :: "memlayout \<Rightarrow> nat list \<Rightarrow> kmem \<Rightarrow> unit outcome \<times> kmem" where
  "kinit_loop L [] s = (Returned (), s)"
| "kinit_loop L (i # is) s =
     (let begin = kend L + NMEM L * word_of_nat i
      in case freerange L begin (begin + NMEM L) s of
           (Returned u, s') \<Rightarrow> kinit_loop L is s'
         | (r, s') \<Rightarrow> (r, s'))"

definition kinit :: "memlayout \<Rightarrow> kmem \<Rightarrow> unit outcome \<times> kmem" where
  "kinit L s = kinit_loop L [0..<NCPU s] s"

section \<open>Vocabulary of the properties\<close>

text \<open>The comparison \<open>b->dev == dev && b->blockno == blockno\<close> on pool entry \<open>i\<close>.\<close>

definition matches :: "bcache \<Rightarrow> 32 word \<Rightarrow> 32 word \<Rightarrow> nat \<Rightarrow> bool" where
  "matches s d bn i = (dev (buf s ! i) = d \<and> blockno (buf s ! i) = bn)"

text \<open>Some bucket points at an entry with the key: the first loop of \<open>bget\<close> will hit.\<close>

definition fast_path_visible :: "bcache \<Rightarrow> 32 word \<Rightarrow> 32 word \<Rightarrow> bool" where
  "fast_path_visible s d bn = list_ex (matches s d bn) (bucket s)"

text \<open>The lock events of a pass over the buckets \<open>js\<close>, each taken and released in turn.\<close>

definition bucket_events :: "nat list \<Rightarrow> lock_event list" where
  "bucket_events js = concat (map (\<lambda>i. [Acquire (BucketLock i), Release (BucketLock i)]) js)"


text \<open>The locks held after a sequence of events, starting with the locks \<open>H\<close>.\<close>

fun held_after :: "lock_id list \<Rightarrow> lock_event list \<Rightarrow> lock_id list" where
  "held_after H [] = H"
| "held_after H (Acquire l # tr) = held_after (l # H) tr"
| "held_after H (Release l # tr) = held_after (remove1 l H) tr"




text \<open>
  The layout fits the \<open>kmem\<close> array: the partition size is not zero, the \<open>NCPU\<close>
  partitions reach \<open>PHYSTOP\<close>, and \<open>NCPU\<close> fits the \<open>int\<close> that indexes the array.
\<close>

definition kmem_wf :: "memlayout \<Rightarrow> kmem \<Rightarrow> bool" where
  "kmem_wf L s =
     (NMEM L \<noteq> 0 \<and> NCPU s < 2 ^ 31 \<and>
      unat (PHYSTOP L) \<le> unat (kend L) + NCPU s * unat (NMEM L))"

subsection \<open>States used as examples\<close>

text \<open>A disk whose block 10 of device 1 holds two bytes; every other block is empty.\<close>

definition demo_disk :: "32 word \<times> 32 word \<Rightarrow> 8 word list" where
  "demo_disk = (\<lambda>k. if k = (1, 10) then [171, 205] else [])"

text \<open>
  A cache of two buffers and one bucket after \<open>binit\<close>; then block (1, 10) acquired by
  process 7 at tick 9 (\<open>cache_got\<close>) and released again (\<open>cache_put\<close>).
\<close>

definition cache_fresh :: bcache where
  "cache_fresh = binit 2 1 demo_disk"

definition cache_got :: bcache where
  "cache_got = snd (bget 7 1 10 9 cache_fresh)"

definition cache_put :: bcache where
  "cache_put = snd (brelse 7 0 cache_got)"

text \<open>
  The same cache after process 7 read block (1, 10), pinned it and released it
  (\<open>cache_released\<close>), and after the unpin that follows (\<open>cache_unpinned\<close>).
\<close>

definition cache_released :: bcache where
  "cache_released = snd (brelse 7 0 (bpin 0 (snd (bread 7 1 10 9 cache_fresh))))"

definition cache_unpinned :: bcache where
  "cache_unpinned = bunpin 0 cache_released"

text \<open>
  Three buffers and two buckets: process 7 acquires blocks (1, 10), (1, 11) and (1, 12) and
  releases the last. Buffer 2 holds (1, 12) and no bucket points at it.
\<close>

definition cache_three :: bcache where
  "cache_three =
     snd (brelse 7 2 (snd (bget 7 1 12 5 (snd (bget 7 1 11 5 (snd (bget 7 1 10 5 (binit 3 2 demo_disk))))))))"

text \<open>Static storage of \<open>kmem\<close> for \<open>n\<close> cores: every list empty, memory zero.\<close>

definition kmem_zero :: "nat \<Rightarrow> kmem" where
  "kmem_zero n = \<lparr>locklog = [], freelist = replicate n 0, run_next = (\<lambda>a. 0)\<rparr>"

text \<open>
  Two cores with four pages each, the kernel ending at 0x1000; and the same with one more
  page of physical memory than the two partitions cover.
\<close>

definition layout_2x4 :: memlayout where
  "layout_2x4 = \<lparr>kend = 0x1000, PHYSTOP = 0x9000, NMEM = 0x4000\<rparr>"

definition layout_wide :: memlayout where
  "layout_wide = \<lparr>kend = 0x1000, PHYSTOP = 0xA000, NMEM = 0x4000\<rparr>"

text \<open>
  The allocator after \<open>kinit\<close> on two cores, and after core 0 has allocated its four pages.
\<close>

definition kmem_2x4 :: kmem where
  "kmem_2x4 = snd (kinit layout_2x4 (kmem_zero 2))"

definition kmem_drained :: kmem where
  "kmem_drained = snd (kalloc 0 (snd (kalloc 0 (snd (kalloc 0 (snd (kalloc 0 kmem_2x4)))))))"

section \<open>Lemmas on the loops of \<open>bget\<close>\<close>

lemma acquire_simps [simp]:
  "locklog (acquire l s) = locklog s @ [Acquire l]"
  by (simp_all add: acquire_def)

lemma acquire_bcache [simp]:
  "bucket (acquire l s) = bucket s" "buf (acquire l s) = buf s" "disk (acquire l s) = disk s"
  "evict (acquire l s) = evict s" 
  by (simp_all add: acquire_def)

lemma release_simps [simp]:
  "locklog (release l s) = locklog s @ [Release l]"
  by (simp_all add: release_def)

lemma release_bcache [simp]:
  "bucket (release l s) = bucket s" "buf (release l s) = buf s" "disk (release l s) = disk s"
  "evict (release l s) = evict s"
  by (simp_all add: release_def)

lemma bucket_events_simps [simp]:
  "bucket_events [] = []"
  "bucket_events (i # js) = Acquire (BucketLock i) # Release (BucketLock i) # bucket_events js"
  "bucket_events (xs @ ys) = bucket_events xs @ bucket_events ys"
  by (simp_all add: bucket_events_def)

lemma bget_buckets_miss:
  "\<forall>i\<in>set js. \<not> matches s d bn (bucket s ! i) \<Longrightarrow>
   bget_buckets d bn t js s = (None, s\<lparr>locklog := locklog s @ bucket_events js\<rparr>)"
proof (induction js arbitrary: s)
  case Nil
  then show ?case by simp
next
  case (Cons i js)
  let ?s' = "release (BucketLock i) (acquire (BucketLock i) s)"
  have "\<forall>k\<in>set js. \<not> matches ?s' d bn (bucket ?s' ! k)"
    using Cons.prems by (simp add: matches_def)
  from Cons.IH [OF this] Cons.prems show ?case
    by (simp add: matches_def Let_def acquire_def release_def)
qed

lemma bget_buckets_hit:
  assumes "\<forall>i\<in>set xs. \<not> matches s d bn (bucket s ! i)" "matches s d bn (bucket s ! k)"
  shows "bget_buckets d bn t (xs @ k # ys) s =
     (Some (bucket s ! k),
      s\<lparr>locklog := locklog s @ bucket_events (xs @ [k]),
        buf := (buf s)[bucket s ! k := (buf s ! (bucket s ! k))\<lparr>refcnt := refcnt (buf s ! (bucket s ! k)) + 1, time := t\<rparr>]\<rparr>)"
  using assms
proof (induction xs arbitrary: s)
  case Nil
  then show ?case by (simp add: matches_def Let_def acquire_def release_def)
next
  case (Cons i xs)
  let ?s' = "release (BucketLock i) (acquire (BucketLock i) s)"
  have a: "\<forall>k\<in>set xs. \<not> matches ?s' d bn (bucket ?s' ! k)" "matches ?s' d bn (bucket ?s' ! k)"
    using Cons.prems by (simp_all add: matches_def)
  from Cons.IH [OF a] Cons.prems show ?case
    by (auto simp add: matches_def Let_def acquire_def release_def)
qed

lemma bget_scan_miss:
  "\<forall>i\<in>set js. \<not> matches s d bn i \<Longrightarrow> bget_scan d bn t js s = (None, s)"
  by (induction js) (auto simp add: matches_def)

lemma bget_scan_hit:
  assumes "\<forall>i\<in>set xs. \<not> matches s d bn i" "matches s d bn i"
  shows "bget_scan d bn t (xs @ i # ys) s =
     (Some i,
      s\<lparr>locklog := locklog s @ [Acquire (BucketLock (i mod NBUCKET s)), Release (BucketLock (i mod NBUCKET s)), Release BcacheLock],
        bucket := (bucket s)[i mod NBUCKET s := i],
        buf := (buf s)[i := (buf s ! i)\<lparr>refcnt := refcnt (buf s ! i) + 1, time := t\<rparr>]\<rparr>)"
  using assms
  by (induction xs) (auto simp add: matches_def Let_def acquire_def release_def NBUCKET_def)

lemma bget_recycle_none:
  "\<forall>i\<in>set js. refcnt (buf s ! i) \<noteq> 0 \<Longrightarrow> bget_recycle d bn t js s = (None, s)"
  by (induction js) simp_all

lemma bget_recycle_first:
  assumes "\<forall>j\<in>set xs. refcnt (buf s ! j) \<noteq> 0" "refcnt (buf s ! i) = 0"
  shows "bget_recycle d bn t (xs @ i # ys) s =
     (Some i,
      s\<lparr>locklog := locklog s @ [Release BcacheLock],
        buf := (buf s)[i := (buf s ! i)\<lparr>dev := d, blockno := bn, valid := False, refcnt := 1, time := t\<rparr>]\<rparr>)"
  using assms
  by (induction xs) (simp_all add: release_def)

lemma upt_split: "i < n \<Longrightarrow> [0..<n] = [0..<i] @ i # [Suc i..<n]"
  by (metis upt_add_eq_append upt_conv_Cons le0 less_imp_le_nat add_0 le_add_diff_inverse)


lemma matches_frame [simp]:
  "matches (acquire l s) d bn i = matches s d bn i"
  "matches (release l s) d bn i = matches s d bn i"
  "matches (s\<lparr>locklog := tr\<rparr>) d bn i = matches s d bn i"
  by (simp_all add: matches_def)

lemma sizes_frame [simp]:
  "NBUF (acquire l s) = NBUF s" "NBUCKET (acquire l s) = NBUCKET s"
  "NBUF (release l s) = NBUF s" "NBUCKET (release l s) = NBUCKET s"
  "NBUF (s\<lparr>locklog := tr\<rparr>) = NBUF s" "NBUCKET (s\<lparr>locklog := tr\<rparr>) = NBUCKET s"
  by (simp_all add: NBUF_def NBUCKET_def)

lemma first_index:
  assumes "i < (n::nat)" "P i"
  shows "\<exists>k<n. P k \<and> (\<forall>j<k. \<not> P j)"
proof -
  define k where "k = (LEAST k. P k)"
  have 1: "P k" unfolding k_def using assms(2) by (rule LeastI)
  have 2: "k \<le> i" unfolding k_def using assms(2) by (rule Least_le)
  have 3: "\<forall>j<k. \<not> P j" unfolding k_def using not_less_Least by blast
  from 2 assms(1) have "k < n" by simp
  with 1 3 show ?thesis by blast
qed

lemma bget_fast_hit:
  assumes "k < NBUCKET s" "\<forall>j<k. \<not> matches s d bn (bucket s ! j)" "matches s d bn (bucket s ! k)"
  shows "bget p d bn t s =
     acquiresleep p (bucket s ! k)
       (s\<lparr>locklog := locklog s @ bucket_events [0..<Suc k],
          buf := (buf s)[bucket s ! k := (buf s ! (bucket s ! k))\<lparr>refcnt := refcnt (buf s ! (bucket s ! k)) + 1, time := t\<rparr>]\<rparr>)"
proof -
  have "bget_buckets d bn t ([0..<k] @ k # [Suc k..<NBUCKET s]) s =
     (Some (bucket s ! k),
      s\<lparr>locklog := locklog s @ bucket_events ([0..<k] @ [k]),
        buf := (buf s)[bucket s ! k := (buf s ! (bucket s ! k))\<lparr>refcnt := refcnt (buf s ! (bucket s ! k)) + 1, time := t\<rparr>]\<rparr>)"
    using assms by (intro bget_buckets_hit) auto
  then show ?thesis
    using upt_split [OF assms(1)] by (simp add: bget_def)
qed

lemma bget_buckets_all_miss:
  assumes "\<forall>k<NBUCKET s. \<not> matches s d bn (bucket s ! k)"
  shows "bget_buckets d bn t [0..<NBUCKET s] s =
           (None, s\<lparr>locklog := locklog s @ bucket_events [0..<NBUCKET s]\<rparr>)"
  using assms by (intro bget_buckets_miss) auto

lemma bget_scan_hit_path:
  assumes "\<forall>k<NBUCKET s. \<not> matches s d bn (bucket s ! k)"
    and "i < NBUF s" "\<forall>j<i. \<not> matches s d bn j" "matches s d bn i"
  shows "bget p d bn t s =
     acquiresleep p i
       (s\<lparr>locklog := locklog s @ bucket_events [0..<NBUCKET s] @
             [Acquire BcacheLock, Acquire (BucketLock (i mod NBUCKET s)),
              Release (BucketLock (i mod NBUCKET s)), Release BcacheLock],
          bucket := (bucket s)[i mod NBUCKET s := i],
          buf := (buf s)[i := (buf s ! i)\<lparr>refcnt := refcnt (buf s ! i) + 1, time := t\<rparr>]\<rparr>)"
proof -
  let ?s2 = "acquire BcacheLock (s\<lparr>locklog := locklog s @ bucket_events [0..<NBUCKET s]\<rparr>)"
  have "bget_scan d bn t ([0..<i] @ i # [Suc i..<NBUF s]) ?s2 =
     (Some i,
      ?s2\<lparr>locklog := locklog ?s2 @ [Acquire (BucketLock (i mod NBUCKET ?s2)), Release (BucketLock (i mod NBUCKET ?s2)), Release BcacheLock],
        bucket := (bucket ?s2)[i mod NBUCKET ?s2 := i],
        buf := (buf ?s2)[i := (buf ?s2 ! i)\<lparr>refcnt := refcnt (buf ?s2 ! i) + 1, time := t\<rparr>]\<rparr>)"
    using assms by (intro bget_scan_hit) auto
  then show ?thesis
    using upt_split [OF assms(2)] bget_buckets_all_miss [OF assms(1), of t]
    by (simp add: bget_def acquire_def Let_def)
qed

lemma bget_recycle_path:
  assumes "\<forall>k<NBUCKET s. \<not> matches s d bn (bucket s ! k)"
    and "\<forall>j<NBUF s. \<not> matches s d bn j"
    and "i < NBUF s" "\<forall>j<i. refcnt (buf s ! j) \<noteq> 0" "refcnt (buf s ! i) = 0"
  shows "bget p d bn t s =
     acquiresleep p i
       (s\<lparr>locklog := locklog s @ bucket_events [0..<NBUCKET s] @ [Acquire BcacheLock, Release BcacheLock],
          buf := (buf s)[i := (buf s ! i)\<lparr>dev := d, blockno := bn, valid := False, refcnt := 1, time := t\<rparr>]\<rparr>)"
proof -
  let ?s2 = "acquire BcacheLock (s\<lparr>locklog := locklog s @ bucket_events [0..<NBUCKET s]\<rparr>)"
  have a: "bget_scan d bn t [0..<NBUF s] ?s2 = (None, ?s2)"
    using assms(2) by (intro bget_scan_miss) auto
  have "bget_recycle d bn t ([0..<i] @ i # [Suc i..<NBUF s]) ?s2 =
     (Some i,
      ?s2\<lparr>locklog := locklog ?s2 @ [Release BcacheLock],
        buf := (buf ?s2)[i := (buf ?s2 ! i)\<lparr>dev := d, blockno := bn, valid := False, refcnt := 1, time := t\<rparr>]\<rparr>)"
    using assms by (intro bget_recycle_first) auto
  then show ?thesis
    using upt_split [OF assms(3)] bget_buckets_all_miss [OF assms(1), of t] a
    by (simp add: bget_def acquire_def Let_def)
qed

lemma bget_panic_path:
  assumes "\<forall>k<NBUCKET s. \<not> matches s d bn (bucket s ! k)"
    and "\<forall>j<NBUF s. \<not> matches s d bn j"
    and "\<forall>j<NBUF s. refcnt (buf s ! j) \<noteq> 0"
  shows "bget p d bn t s =
     (Panicked ''bget: no buffers'',
      s\<lparr>locklog := locklog s @ bucket_events [0..<NBUCKET s] @ [Acquire BcacheLock]\<rparr>)"
proof -
  let ?s2 = "acquire BcacheLock (s\<lparr>locklog := locklog s @ bucket_events [0..<NBUCKET s]\<rparr>)"
  have a: "bget_scan d bn t [0..<NBUF s] ?s2 = (None, ?s2)"
    using assms(2) by (intro bget_scan_miss) auto
  have b: "bget_recycle d bn t [0..<NBUF s] ?s2 = (None, ?s2)"
    using assms(3) by (intro bget_recycle_none) auto
  show ?thesis
    using bget_buckets_all_miss [OF assms(1), of t] a b
    by (simp add: bget_def acquire_def Let_def)
qed

lemma wf_bucket_miss:
  assumes "bcache_wf s" "\<forall>j<NBUF s. \<not> matches s d bn j"
  shows "\<forall>k<NBUCKET s. \<not> matches s d bn (bucket s ! k)"
proof (intro allI impI)
  fix k assume "k < NBUCKET s"
  with assms(1) have "bucket s ! k < NBUF s"
    by (simp add: bcache_wf_def NBUF_def NBUCKET_def list_all_length)
  with assms(2) show "\<not> matches s d bn (bucket s ! k)" by blast
qed

section \<open>Case analysis of \<open>bget\<close>\<close>

lemma fast_path_visible_iff:
  "fast_path_visible s d bn \<longleftrightarrow> (\<exists>k<NBUCKET s. matches s d bn (bucket s ! k))"
  by (simp add: fast_path_visible_def list_ex_length NBUCKET_def)

lemma bget_cases [case_names fast scan recycle panic]:
  obtains
    (fast) k where "k < NBUCKET s" "\<forall>j<k. \<not> matches s d bn (bucket s ! j)"
        "matches s d bn (bucket s ! k)"
  | (scan) i where "\<not> fast_path_visible s d bn" "i < NBUF s" "\<forall>j<i. \<not> matches s d bn j"
        "matches s d bn i"
  | (recycle) i where "\<not> fast_path_visible s d bn" "\<forall>j<NBUF s. \<not> matches s d bn j"
        "i < NBUF s" "\<forall>j<i. refcnt (buf s ! j) \<noteq> 0" "refcnt (buf s ! i) = 0"
  | (panic) "\<not> fast_path_visible s d bn" "\<forall>j<NBUF s. \<not> matches s d bn j"
        "\<forall>j<NBUF s. refcnt (buf s ! j) \<noteq> 0"
proof (cases "fast_path_visible s d bn")
  case True
  then obtain k0 where "k0 < NBUCKET s" "matches s d bn (bucket s ! k0)"
    by (auto simp: fast_path_visible_iff)
  from first_index [of k0 "NBUCKET s" "\<lambda>k. matches s d bn (bucket s ! k)", OF this]
  show ?thesis using fast by blast
next
  case nofast: False
  show ?thesis
  proof (cases "\<exists>i<NBUF s. matches s d bn i")
    case True
    then obtain i0 where "i0 < NBUF s" "matches s d bn i0" by blast
    from first_index [of i0 "NBUF s" "\<lambda>i. matches s d bn i", OF this]
    show ?thesis using scan nofast by blast
  next
    case nomatch: False
    show ?thesis
    proof (cases "\<exists>i<NBUF s. refcnt (buf s ! i) = 0")
      case True
      then obtain i0 where "i0 < NBUF s" "refcnt (buf s ! i0) = 0" by blast
      from first_index [of i0 "NBUF s" "\<lambda>i. refcnt (buf s ! i) = 0", OF this]
      show ?thesis using recycle nofast nomatch by blast
    next
      case False
      then show ?thesis using panic nofast nomatch by blast
    qed
  qed
qed

lemma acquiresleep_fst:
  "fst (acquiresleep p i s) = (if lock (buf s ! i) = None then Returned i else Blocked i)"
  by (simp add: acquiresleep_def split: option.splits)

lemma acquiresleep_buf:
  "buf (snd (acquiresleep p i s)) =
     (if lock (buf s ! i) = None then (buf s)[i := (buf s ! i)\<lparr>lock := Some p\<rparr>] else buf s)"
  by (simp add: acquiresleep_def split: option.splits)

lemma acquiresleep_frame:
  "bucket (snd (acquiresleep p i s)) = bucket s"
  "disk (snd (acquiresleep p i s)) = disk s"
  "evict (snd (acquiresleep p i s)) = evict s"
  by (simp_all add: acquiresleep_def split: option.splits)



lemma acquiresleep_Returned:
  assumes "acquiresleep p i s = (Returned b, s1)"
  shows "b = i" "lock (buf s ! i) = None"
    "s1 = s\<lparr>locklog := locklog s @ [Acquire (BufLock i)],
             buf := (buf s)[i := (buf s ! i)\<lparr>lock := Some p\<rparr>]\<rparr>"
  using assms by (auto simp: acquiresleep_def split: option.splits)

lemma wf_bucket_in_pool:
  "bcache_wf s \<Longrightarrow> k < NBUCKET s \<Longrightarrow> bucket s ! k < length (buf s)"
  by (simp add: bcache_wf_def NBUCKET_def list_all_length)

lemma bget_Returned:
  assumes "bcache_wf s" and "bget p d bn t s = (Returned b, s1)"
  shows "b < NBUF s \<and> NBUF s1 = NBUF s \<and> matches s1 d bn b \<and> lock (buf s1 ! b) = Some p \<and>
         disk s1 = disk s"
proof (cases rule: bget_cases [of s d bn])
  case (fast k)
  have len: "bucket s ! k < length (buf s)"
    using assms(1) fast(1) by (rule wf_bucket_in_pool)
  from assms(2) have "acquiresleep p (bucket s ! k)
       (s\<lparr>locklog := locklog s @ bucket_events [0..<Suc k],
          buf := (buf s)[bucket s ! k := (buf s ! (bucket s ! k))\<lparr>refcnt := refcnt (buf s ! (bucket s ! k)) + 1, time := t\<rparr>]\<rparr>)
       = (Returned b, s1)"
    by (simp only: bget_fast_hit [OF fast, of p t])
  from acquiresleep_Returned(1,3) [OF this] len fast(3) show ?thesis
    by (simp add: NBUF_def matches_def)
next
  case (scan i)
  have nf: "\<forall>k<NBUCKET s. \<not> matches s d bn (bucket s ! k)"
    using scan(1) by (simp add: fast_path_visible_iff)
  from assms(2) have "acquiresleep p i
       (s\<lparr>locklog := locklog s @ bucket_events [0..<NBUCKET s] @
             [Acquire BcacheLock, Acquire (BucketLock (i mod NBUCKET s)),
              Release (BucketLock (i mod NBUCKET s)), Release BcacheLock],
          bucket := (bucket s)[i mod NBUCKET s := i],
          buf := (buf s)[i := (buf s ! i)\<lparr>refcnt := refcnt (buf s ! i) + 1, time := t\<rparr>]\<rparr>)
       = (Returned b, s1)"
    by (simp only: bget_scan_hit_path [OF nf scan(2,3,4), of p t])
  from acquiresleep_Returned(1,3) [OF this] scan(2,4) show ?thesis
    by (simp add: NBUF_def matches_def)
next
  case (recycle i)
  have nf: "\<forall>k<NBUCKET s. \<not> matches s d bn (bucket s ! k)"
    using recycle(1) by (simp add: fast_path_visible_iff)
  from assms(2) have "acquiresleep p i
       (s\<lparr>locklog := locklog s @ bucket_events [0..<NBUCKET s] @ [Acquire BcacheLock, Release BcacheLock],
          buf := (buf s)[i := (buf s ! i)\<lparr>dev := d, blockno := bn, valid := False, refcnt := 1, time := t\<rparr>]\<rparr>)
       = (Returned b, s1)"
    by (simp only: bget_recycle_path [OF nf recycle(2,3,4,5), of p t])
  from acquiresleep_Returned(1,3) [OF this] recycle(3) show ?thesis
    by (simp add: NBUF_def matches_def)
next
  case panic
  have nf: "\<forall>k<NBUCKET s. \<not> matches s d bn (bucket s ! k)"
    using panic(1) by (simp add: fast_path_visible_iff)
  from assms(2) show ?thesis
    by (simp add: bget_panic_path [OF nf panic(2,3), of p t])
qed

lemma find_upt_first:
  assumes "i < n" "P i" "\<forall>j<i. \<not> P j"
  shows "find P [0..<n] = Some i"
proof -
  have "\<exists>k<length [0..<n]. P ([0..<n] ! k) \<and> i = [0..<n] ! k \<and> (\<forall>j<k. \<not> P ([0..<n] ! j))"
    using assms by (intro exI [of _ i]) simp
  then show ?thesis by (simp only: find_Some_iff)
qed

lemma find_upt_none: "\<forall>j<n. \<not> P j \<Longrightarrow> find P [0..<n] = None"
  by (simp add: find_None_iff)

section \<open>Lock logs\<close>


lemma held_after_append: "held_after H (xs @ ys) = held_after (held_after H xs) ys"
  by (induction H xs rule: held_after.induct) simp_all







section \<open>The example caches, evaluated\<close>

lemmas bcache_eval =
  bget_def bread_def brelse_def bpin_def bunpin_def binit_def NBUCKET_def NBUF_def zero_buf_def
  holdingsleep_def releasesleep_def virtio_disk_rw_def demo_disk_def acquiresleep_def
  acquire_def release_def Let_def upt_rec eval_nat_numeral

lemma cache_fresh_fields:
  "buf cache_fresh =
     [\<lparr>valid = False, dev = 0, blockno = 0, lock = None, refcnt = 0, time = 0, data = []\<rparr>,
      \<lparr>valid = False, dev = 0, blockno = 0, lock = None, refcnt = 0, time = 0, data = []\<rparr>]"
  "bucket cache_fresh = [0]" "locklog cache_fresh = []" "disk cache_fresh = demo_disk"
  by (simp_all add: cache_fresh_def binit_def zero_buf_def eval_nat_numeral upt_rec)

lemma cache_got_fields:
  "fst (bget 7 1 10 9 cache_fresh) = Returned 0"
  "buf cache_got =
     [\<lparr>valid = False, dev = 1, blockno = 10, lock = Some 7, refcnt = 1, time = 9, data = []\<rparr>,
      \<lparr>valid = False, dev = 0, blockno = 0, lock = None, refcnt = 0, time = 0, data = []\<rparr>]"
  "bucket cache_got = [0]"
  "locklog cache_got =
     [Acquire (BucketLock 0), Release (BucketLock 0), Acquire BcacheLock, Release BcacheLock,
      Acquire (BufLock 0)]"
  by (simp_all add: cache_got_def cache_fresh_def bcache_eval)

lemma cache_put_fields:
  "buf cache_put =
     [\<lparr>valid = False, dev = 1, blockno = 10, lock = None, refcnt = 0, time = 0, data = []\<rparr>,
      \<lparr>valid = False, dev = 0, blockno = 0, lock = None, refcnt = 0, time = 0, data = []\<rparr>]"
  "bucket cache_put = [0]"
  "locklog cache_put =
     [Acquire (BucketLock 0), Release (BucketLock 0), Acquire BcacheLock, Release BcacheLock,
      Acquire (BufLock 0), Release (BufLock 0), Acquire BcacheLock, Release BcacheLock]"
  by (simp_all add: cache_put_def brelse_def holdingsleep_def releasesleep_def acquire_def
      release_def Let_def cache_got_fields)

lemma cache_released_buf:
  "buf cache_released =
     [\<lparr>valid = True, dev = 1, blockno = 10, lock = None, refcnt = 1, time = 9, data = [171, 205]\<rparr>,
      \<lparr>valid = False, dev = 0, blockno = 0, lock = None, refcnt = 0, time = 0, data = []\<rparr>]"
  "bucket cache_released = [0]"
  by (simp_all add: cache_released_def cache_fresh_def bcache_eval)

lemma cache_unpinned_buf:
  "buf cache_unpinned =
     [\<lparr>valid = True, dev = 1, blockno = 10, lock = None, refcnt = 0, time = 9, data = [171, 205]\<rparr>,
      \<lparr>valid = False, dev = 0, blockno = 0, lock = None, refcnt = 0, time = 0, data = []\<rparr>]"
  "bucket cache_unpinned = [0]"
  by (simp_all add: cache_unpinned_def bunpin_def cache_released_buf Let_def acquire_def release_def)

lemma cache_three_fields:
  "buf cache_three =
     [\<lparr>valid = False, dev = 1, blockno = 10, lock = Some 7, refcnt = 1, time = 5, data = []\<rparr>,
      \<lparr>valid = False, dev = 1, blockno = 11, lock = Some 7, refcnt = 1, time = 5, data = []\<rparr>,
      \<lparr>valid = False, dev = 1, blockno = 12, lock = None, refcnt = 0, time = 0, data = []\<rparr>]"
  "bucket cache_three = [0, 1]"
  by (simp_all add: cache_three_def bcache_eval)


lemma bget_on_cache_put:
  "fst (bget 7 1 10 12 cache_put) = Returned 0"
  "emitted cache_put (snd (bget 7 1 10 12 cache_put)) =
     [Acquire (BucketLock 0), Release (BucketLock 0), Acquire (BufLock 0)]"
  by (simp_all add: emitted_def bget_def NBUCKET_def NBUF_def acquiresleep_def acquire_def release_def
      Let_def upt_rec eval_nat_numeral cache_put_fields)

section \<open>Lemmas on \<open>kfree\<close> and \<open>kalloc\<close>\<close>

lemma sint_ucast_small:
  fixes q :: "64 word"
  assumes "unat q < 2 ^ 31"
  shows "sint (ucast q :: 32 word) = int (unat q)"
proof -
  have "int (unat q) < int (2 ^ 31)" using assms by (simp only: of_nat_less_iff)
  then have u: "uint q < 2 ^ 31" "0 \<le> uint q" by simp_all
  have "uint (ucast q :: 32 word) = take_bit 32 (uint q)"
    by (simp add: unsigned_ucast_eq)
  also have "\<dots> = uint q"
    using u by (simp add: take_bit_int_eq_self)
  finally have a: "uint (ucast q :: 32 word) = uint q" .
  have "sint (ucast q :: 32 word) = signed_take_bit 31 (uint q)"
    by (simp add: sint_uint a)
  also have "\<dots> = uint q"
  proof (rule signed_take_bit_int_eq_self)
    show "- (2 ^ 31) \<le> uint q" by (rule order_trans [of _ 0]) simp_all
    show "uint q < 2 ^ 31" by (rule u(1))
  qed
  finally show ?thesis by simp
qed

lemma owner_bound:
  assumes "kfree_accepts L pa" "NMEM L \<noteq> 0"
    and "unat (PHYSTOP L) \<le> unat (kend L) + n * unat (NMEM L)"
  shows "unat (owner L pa) < n"
proof -
  from assms(1) have ge: "kend L \<le> pa" and lt: "pa < PHYSTOP L"
    by (simp_all add: kfree_accepts_def not_less not_le)
  have "unat (pa - kend L) = unat pa - unat (kend L)"
    using ge by (rule unat_sub)
  moreover have "unat (kend L) \<le> unat pa" using ge by (simp add: word_le_nat_alt)
  moreover have "unat pa < unat (PHYSTOP L)" using lt by (simp add: word_less_nat_alt)
  ultimately have "unat (pa - kend L) < n * unat (NMEM L)"
    using assms(3) by linarith
  moreover have "0 < unat (NMEM L)" using assms(2) by (simp add: unat_gt_0)
  ultimately have "unat (pa - kend L) div unat (NMEM L) < n"
    by (simp add: less_mult_imp_div_less)
  then show ?thesis by (simp add: owner_def unat_div)
qed

lemma kmem_frame [simp]:
  "freelist (acquire l s) = freelist s" "run_next (acquire l s) = run_next s"
  "freelist (release l s) = freelist s" "run_next (release l s) = run_next s"
  "NCPU (acquire l s) = NCPU s" "NCPU (release l s) = NCPU s"
  "NCPU (s\<lparr>locklog := tr\<rparr>) = NCPU s" "NCPU (s\<lparr>run_next := m\<rparr>) = NCPU s"
  "NCPU (memset_page pa c s) = NCPU s" "freelist (memset_page pa c s) = freelist s"
  "locklog (memset_page pa c s) = locklog s"
  by (simp_all add: acquire_def release_def NCPU_def memset_page_def)

lemma kfree_index:
  assumes "kmem_wf L s" "kfree_accepts L pa"
  shows "unat (owner L pa) < NCPU s"
    and "sint (ucast ((pa - kend L) div NMEM L) :: 32 word) = int (unat (owner L pa))"
proof -
  from assms(1) have w: "NMEM L \<noteq> 0" "NCPU s < 2 ^ 31"
    "unat (PHYSTOP L) \<le> unat (kend L) + NCPU s * unat (NMEM L)"
    by (simp_all add: kmem_wf_def)
  show b: "unat (owner L pa) < NCPU s"
    using assms(2) w(1,3) by (rule owner_bound)
  then have "unat ((pa - kend L) div NMEM L) < 2 ^ 31"
    using w(2) by (simp add: owner_def)
  then show "sint (ucast ((pa - kend L) div NMEM L) :: 32 word) = int (unat (owner L pa))"
    unfolding owner_def by (rule sint_ucast_small)
qed

lemma kfree_accepted:
  assumes "kmem_wf L s" "kfree_accepts L pa"
  shows "kfree L pa s =
     (Returned (),
      s\<lparr>locklog := locklog s @ [Acquire (KmemLock (unat (owner L pa))),
                                 Release (KmemLock (unat (owner L pa)))],
        freelist := (freelist s)[unat (owner L pa) := pa],
        run_next := (run_next s)(pa := freelist s ! unat (owner L pa))\<rparr>)"
proof -
  from assms(1) have nz: "NMEM L \<noteq> 0" by (simp add: kmem_wf_def)
  from assms(2) have acc: "\<not> (unat pa mod PGSIZE \<noteq> 0 \<or> pa < kend L \<or> PHYSTOP L \<le> pa)"
    by (simp add: kfree_accepts_def)
  note i = kfree_index [OF assms]
  have "int (unat (owner L pa)) < int (NCPU s)"
    using i(1) by (simp only: of_nat_less_iff)
  then have lt: "\<not> int (NCPU s) \<le> uint (owner L pa)" by simp
  show ?thesis
    unfolding kfree_def using acc nz i lt
    by (simp add: Let_def acquire_def release_def memset_page_def)
qed

lemma kalloc_steal_fst:
  "fst (kalloc_steal js s) =
     (case find (\<lambda>j. freelist s ! j \<noteq> 0) js of None \<Rightarrow> 0 | Some j \<Rightarrow> freelist s ! j)"
  by (induction js arbitrary: s) (simp_all add: Let_def split: option.splits)

lemma kalloc_steal_freelist:
  "freelist (snd (kalloc_steal js s)) =
     (case find (\<lambda>j. freelist s ! j \<noteq> 0) js of
        None \<Rightarrow> freelist s
      | Some j \<Rightarrow> (freelist s)[j := run_next s (freelist s ! j)])"
  by (induction js arbitrary: s) (simp_all add: Let_def split: option.splits)

lemma kalloc_steal_run_next: "run_next (snd (kalloc_steal js s)) = run_next s"
  by (induction js arbitrary: s) (simp_all add: Let_def)

lemma kalloc_steal_NCPU: "NCPU (snd (kalloc_steal js s)) = NCPU s"
  by (simp add: NCPU_def kalloc_steal_freelist split: option.splits)

lemma kalloc_own:
  assumes "c < NCPU s" "freelist s ! c \<noteq> 0"
  shows "kalloc c s =
     (Returned (freelist s ! c),
      s\<lparr>locklog := locklog s @ [Acquire (KmemLock c), Release (KmemLock c)],
        freelist := (freelist s)[c := run_next s (freelist s ! c)],
        run_next := (run_next s)(freelist s ! c := word_rcat (replicate 8 (5 :: 8 word)))\<rparr>)"
  using assms by (simp add: kalloc_def Let_def acquire_def release_def memset_page_def)

lemma kalloc_fallback:
  assumes "c < NCPU s" "freelist s ! c = 0"
  shows "fst (kalloc c s) = Returned (fst (kalloc_steal [0..<NCPU s] s))"
    and "freelist (snd (kalloc c s)) = freelist (snd (kalloc_steal [0..<NCPU s] s))"
    and "fst (kalloc_steal [0..<NCPU s] s) = 0 \<Longrightarrow> run_next (snd (kalloc c s)) = run_next s"
proof -
  let ?s3 = "release (KmemLock c) (acquire (KmemLock c) s)"
  have f: "freelist ?s3 = freelist s" "run_next ?s3 = run_next s" "NCPU ?s3 = NCPU s" by simp_all
  have a: "fst (kalloc_steal js ?s3) = fst (kalloc_steal js s)" for js
    by (simp only: kalloc_steal_fst f)
  have b: "freelist (snd (kalloc_steal js ?s3)) = freelist (snd (kalloc_steal js s))" for js
    by (simp only: kalloc_steal_freelist f)
  have c: "run_next (snd (kalloc_steal js ?s3)) = run_next s" for js
    by (simp only: kalloc_steal_run_next f)
  obtain r s4 where k: "kalloc_steal [0..<NCPU s] ?s3 = (r, s4)"
    by (cases "kalloc_steal [0..<NCPU s] ?s3")
  have k': "r = fst (kalloc_steal [0..<NCPU s] s)"
    "freelist s4 = freelist (snd (kalloc_steal [0..<NCPU s] s))" "run_next s4 = run_next s"
    using a [of "[0..<NCPU s]"] b [of "[0..<NCPU s]"] c [of "[0..<NCPU s]"] k by simp_all
  have e: "kalloc c s = (Returned r, if r \<noteq> 0 then memset_page r 5 s4 else s4)"
    using assms k by (simp add: kalloc_def Let_def)
  show "fst (kalloc c s) = Returned (fst (kalloc_steal [0..<NCPU s] s))"
    by (simp add: e k')
  show "freelist (snd (kalloc c s)) = freelist (snd (kalloc_steal [0..<NCPU s] s))"
    by (simp add: e k')
  show "run_next (snd (kalloc c s)) = run_next s" if "fst (kalloc_steal [0..<NCPU s] s) = 0"
    using that by (simp add: e k')
qed

lemma kalloc_NCPU:
  assumes "c < NCPU s"
  shows "NCPU (snd (kalloc c s)) = NCPU s"
proof (cases "freelist s ! c = 0")
  case True
  have "NCPU (snd (kalloc c s)) = length (freelist (snd (kalloc_steal [0..<NCPU s] s)))"
    by (simp add: NCPU_def kalloc_fallback(2) [OF assms True])
  also have "\<dots> = NCPU s" using kalloc_steal_NCPU by (simp add: NCPU_def)
  finally show ?thesis .
next
  case False
  then show ?thesis by (simp add: kalloc_own [OF assms] NCPU_def)
qed

lemma find_none_all_empty:
  "find (\<lambda>j. freelist s ! j \<noteq> 0) [0..<NCPU s] = None \<longleftrightarrow> (\<forall>j<NCPU s. freelist s ! j = 0)"
  by (simp add: find_None_iff)

lemma kfree_out_of_bounds:
  assumes "kfree_accepts L pa" "NMEM L \<noteq> 0" "NCPU s \<le> unat (owner L pa)"
    "unat (owner L pa) < 2 ^ 31"
  shows "kfree L pa s = (Undefined ''kfree: kmem index'', memset_page pa 1 s)"
proof -
  from assms(1) have acc: "\<not> (unat pa mod PGSIZE \<noteq> 0 \<or> pa < kend L \<or> PHYSTOP L \<le> pa)"
    by (simp add: kfree_accepts_def)
  have c: "sint (ucast ((pa - kend L) div NMEM L) :: 32 word) = int (unat (owner L pa))"
    using assms(4) unfolding owner_def by (rule sint_ucast_small)
  have "int (NCPU s) \<le> int (unat (owner L pa))"
    using assms(3) by (simp only: of_nat_le_iff)
  then have ge: "int (NCPU s) \<le> uint (owner L pa)" by simp
  show ?thesis
    unfolding kfree_def using acc assms(2) c ge by (simp add: Let_def)
qed

section \<open>The example allocator, evaluated\<close>

lemma replicate_two: "replicate 2 x = [x, x]"
  by (simp add: numeral_2_eq_2)

lemma upt_two: "[0..<2] = [0, 1]"
  by (simp add: upt_rec)

lemmas kmem_eval =
  kinit_def freerange_def PGROUNDUP_def kfree_def kalloc_def layout_2x4_def kmem_zero_def
  PGSIZE_def NCPU_def memset_page_def acquire_def release_def Let_def upt_two replicate_two

lemma kmem_2x4_fields:
  "freelist kmem_2x4 = [0x4000, 0x8000]"
  "run_next kmem_2x4 0x4000 = 0x3000" "run_next kmem_2x4 0x3000 = 0x2000"
  "run_next kmem_2x4 0x2000 = 0x1000" "run_next kmem_2x4 0x1000 = 0"
  "run_next kmem_2x4 0x8000 = 0x7000"
  by (simp_all add: kmem_2x4_def kmem_eval)

lemma kmem_drained_fields:
  "freelist kmem_drained = [0, 0x8000]"
  "run_next kmem_drained 0x8000 = 0x7000"
  by (simp_all add: kmem_drained_def kalloc_def NCPU_def memset_page_def acquire_def release_def
      Let_def kmem_2x4_fields)


lemma layout_2x4_accepts: "kfree_accepts layout_2x4 0x8000"
  by (simp add: kfree_accepts_def layout_2x4_def PGSIZE_def)

lemma layout_2x4_owner: "unat (owner layout_2x4 0x8000) = 1"
  by (simp add: owner_def layout_2x4_def unat_div)

section \<open>Well-formed states are preserved\<close>

lemma binit_wf: "0 < nbucket \<Longrightarrow> nbucket \<le> nbuf \<Longrightarrow> bcache_wf (binit nbuf nbucket dsk)"
  by (auto simp: bcache_wf_def binit_def list_all_iff)

lemma bcache_wf_cong:
  "bucket s' = bucket s \<Longrightarrow> length (buf s') = length (buf s) \<Longrightarrow> bcache_wf s' = bcache_wf s"
  by (simp add: bcache_wf_def)

lemma acquiresleep_wf: "bcache_wf (snd (acquiresleep p i s)) = bcache_wf s"
  by (rule bcache_wf_cong) (simp_all add: acquiresleep_frame acquiresleep_buf)

lemma bget_wf:
  assumes "bcache_wf s"
  shows "bcache_wf (snd (bget p d bn t s))"
proof (cases rule: bget_cases [of s d bn])
  case (fast k)
  show ?thesis
    unfolding bget_fast_hit [OF fast, of p t] acquiresleep_wf
    using assms by (simp add: bcache_wf_def)
next
  case (scan i)
  have nf: "\<forall>k<NBUCKET s. \<not> matches s d bn (bucket s ! k)"
    using scan(1) by (simp add: fast_path_visible_iff)
  have "set ((bucket s)[i mod NBUCKET s := i]) \<subseteq> insert i (set (bucket s))"
    by (rule set_update_subset_insert)
  then have "list_all (\<lambda>b. b < length (buf s)) ((bucket s)[i mod NBUCKET s := i])"
    using assms scan(2) by (auto simp: bcache_wf_def list_all_iff NBUF_def)
  then show ?thesis
    unfolding bget_scan_hit_path [OF nf scan(2,3,4), of p t] acquiresleep_wf
    using assms by (simp add: bcache_wf_def)
next
  case (recycle i)
  have nf: "\<forall>k<NBUCKET s. \<not> matches s d bn (bucket s ! k)"
    using recycle(1) by (simp add: fast_path_visible_iff)
  show ?thesis
    unfolding bget_recycle_path [OF nf recycle(2,3,4,5), of p t] acquiresleep_wf
    using assms by (simp add: bcache_wf_def)
next
  case panic
  have nf: "\<forall>k<NBUCKET s. \<not> matches s d bn (bucket s ! k)"
    using panic(1) by (simp add: fast_path_visible_iff)
  show ?thesis
    unfolding bget_panic_path [OF nf panic(2,3), of p t]
    using assms by (simp add: bcache_wf_def)
qed

lemma bread_wf:
  assumes "bcache_wf s"
  shows "bcache_wf (snd (bread p d bn t s))"
proof -
  obtain r s1 where g: "bget p d bn t s = (r, s1)" by (cases "bget p d bn t s")
  have "bcache_wf s1" using bget_wf [OF assms, of p d bn t] g by simp
  then show ?thesis
    by (cases r) (simp_all add: bread_def g Let_def virtio_disk_rw_def bcache_wf_def)
qed

lemma release_ops_wf:
  "bcache_wf (snd (bwrite p b s)) = bcache_wf s"
  "bcache_wf (snd (brelse p b s)) = bcache_wf s"
  "bcache_wf (bpin b s) = bcache_wf s"
  "bcache_wf (bunpin b s) = bcache_wf s"
  by (simp_all add: bwrite_def brelse_def bpin_def bunpin_def Let_def virtio_disk_rw_def
      releasesleep_def bcache_wf_def)

lemma kfree_NCPU: "NCPU (snd (kfree L pa s)) = NCPU s"
  by (simp add: kfree_def Let_def NCPU_def memset_page_def acquire_def release_def)

lemma kalloc_wf: "kmem_wf L s \<Longrightarrow> kmem_wf L (snd (kalloc c s))"
  by (cases "c < NCPU s") (simp_all add: kmem_wf_def kalloc_NCPU, simp add: kalloc_def)

lemma kfree_wf: "kmem_wf L s \<Longrightarrow> kmem_wf L (snd (kfree L pa s))"
  by (simp add: kmem_wf_def kfree_NCPU)

section \<open>The claims\<close>

subsection \<open>C1: the miss path recycles the first unused buffer\<close>

text \<open>
  C1. When no entry of the pool has the requested key and some entry has \<open>refcnt = 0\<close>,
  \<open>bget\<close> takes the entry \<open>i\<close> that is first in pool order among those with
  \<open>refcnt = 0\<close> and sets its \<open>dev\<close>, \<open>blockno\<close>, \<open>valid = 0\<close>, \<open>refcnt = 1\<close> and
  \<open>time = ticks\<close>; every other entry and every bucket stay as they were. The caller then
  takes the sleeplock of entry \<open>i\<close>, or is suspended on it when somebody holds it. The
  \<open>time\<close> fields play no part: an unused entry \<open>j\<close> with a smaller \<open>time\<close> than entry \<open>i\<close>
  is not the one selected.
\<close>

theorem bget_recycles_first_unused:
  assumes "bcache_wf s"
    and "\<forall>j<NBUF s. \<not> matches s d bn j"
    and "i < NBUF s" and "refcnt (buf s ! i) = 0" and "\<forall>j<i. refcnt (buf s ! j) \<noteq> 0"
  shows "fst (bget p d bn t s) = (if lock (buf s ! i) = None then Returned i else Blocked i) \<and>
     buf (snd (bget p d bn t s)) =
       (buf s)[i := (buf s ! i)\<lparr>dev := d, blockno := bn, valid := False, refcnt := 1, time := t,
                                 lock := (if lock (buf s ! i) = None then Some p else lock (buf s ! i))\<rparr>] \<and>
     bucket (snd (bget p d bn t s)) = bucket s \<and>
     (\<forall>j<NBUF s. refcnt (buf s ! j) = 0 \<and> time (buf s ! j) < time (buf s ! i) \<longrightarrow>
        fst (bget p d bn t s) \<noteq> Returned j \<and> fst (bget p d bn t s) \<noteq> Blocked j)"
proof -
  have eq: "bget p d bn t s =
     acquiresleep p i
       (s\<lparr>locklog := locklog s @ bucket_events [0..<NBUCKET s] @ [Acquire BcacheLock, Release BcacheLock],
          buf := (buf s)[i := (buf s ! i)\<lparr>dev := d, blockno := bn, valid := False, refcnt := 1, time := t\<rparr>]\<rparr>)"
    using wf_bucket_miss [OF assms(1,2)] assms(2-5) by (intro bget_recycle_path) auto
  have len: "i < length (buf s)" using assms(3) by (simp add: NBUF_def)
  have 1: "fst (bget p d bn t s) = (if lock (buf s ! i) = None then Returned i else Blocked i)"
    using len by (simp add: eq acquiresleep_fst)
  have 2: "buf (snd (bget p d bn t s)) =
       (buf s)[i := (buf s ! i)\<lparr>dev := d, blockno := bn, valid := False, refcnt := 1, time := t,
                                 lock := (if lock (buf s ! i) = None then Some p else lock (buf s ! i))\<rparr>]"
    using len by (simp add: eq acquiresleep_buf)
  have 3: "bucket (snd (bget p d bn t s)) = bucket s"
    by (simp add: eq acquiresleep_frame)
  have 4: "\<forall>j<NBUF s. refcnt (buf s ! j) = 0 \<and> time (buf s ! j) < time (buf s ! i) \<longrightarrow>
        fst (bget p d bn t s) \<noteq> Returned j \<and> fst (bget p d bn t s) \<noteq> Blocked j"
    unfolding 1 by auto
  from 1 2 3 4 show ?thesis by blast
qed

text \<open>
  In \<open>cache_unpinned\<close> both buffers are unused; buffer 0 has \<open>time = 9\<close> and buffer 1 has
  \<open>time = 0\<close>. A request for block (1, 11) recycles buffer 0, the first, not buffer 1, the
  least recently used.
\<close>

theorem bget_recycles_first_unused_witness:
  "bcache_wf cache_unpinned \<and> NBUF cache_unpinned = 2 \<and>
   \<not> matches cache_unpinned 1 11 0 \<and> \<not> matches cache_unpinned 1 11 1 \<and>
   refcnt (buf cache_unpinned ! 0) = 0 \<and>
   refcnt (buf cache_unpinned ! 1) = 0 \<and>
   time (buf cache_unpinned ! 1) < time (buf cache_unpinned ! 0) \<and>
   fst (bget 7 1 11 12 cache_unpinned) = Returned 0 \<and>
   fst (bget 7 1 11 12 cache_unpinned) \<noteq> Returned 1 \<and>
   buf (snd (bget 7 1 11 12 cache_unpinned)) =
     [\<lparr>valid = False, dev = 1, blockno = 11, lock = Some 7, refcnt = 1, time = 12, data = [171, 205]\<rparr>,
      \<lparr>valid = False, dev = 0, blockno = 0, lock = None, refcnt = 0, time = 0, data = []\<rparr>]"
proof -
  have wf: "bcache_wf cache_unpinned"
    by (simp add: bcache_wf_def cache_unpinned_buf)
  have n: "NBUF cache_unpinned = 2"
    by (simp add: NBUF_def cache_unpinned_buf)
  have m: "\<not> matches cache_unpinned 1 11 0" "\<not> matches cache_unpinned 1 11 1"
    by (simp_all add: matches_def cache_unpinned_buf)
  have nomatch: "\<forall>j<NBUF cache_unpinned. \<not> matches cache_unpinned 1 11 j"
    using m by (simp add: n less_Suc_eq eval_nat_numeral)
  have r: "refcnt (buf cache_unpinned ! 0) = 0" "refcnt (buf cache_unpinned ! 1) = 0"
    "time (buf cache_unpinned ! 1) < time (buf cache_unpinned ! 0)"
    by (simp_all add: cache_unpinned_buf)
  have i: "0 < NBUF cache_unpinned" "\<forall>j<0::nat. refcnt (buf cache_unpinned ! j) \<noteq> 0"
    by (simp_all add: n)
  from bget_recycles_first_unused [OF wf nomatch i(1) r(1) i(2), of 7 12]
  show ?thesis using wf n m r by (simp add: cache_unpinned_buf)
qed

subsection \<open>C2: the timestamp is reset by brelse only\<close>

text \<open>
  C2, as amended. \<open>brelse\<close> by the holder of the sleeplock returns, decrements \<open>refcnt\<close>,
  and sets \<open>time\<close> to 0 exactly when the decrement brings \<open>refcnt\<close> to 0 (otherwise \<open>time\<close>
  stays). \<open>bunpin\<close>, on every entry of the pool and whoever holds its sleeplock, changes
  nothing in the pool but the \<open>refcnt\<close> of its entry, which it decrements: no \<open>time\<close> field
  changes, also when \<open>refcnt\<close> reaches 0.
\<close>

theorem brelse_resets_time_at_zero:
  assumes "b < NBUF s"
  shows "(holdingsleep p (lock (buf s ! b)) \<longrightarrow>
       fst (brelse p b s) = Returned () \<and>
       refcnt (buf (snd (brelse p b s)) ! b) = refcnt (buf s ! b) - 1 \<and>
       (refcnt (buf (snd (brelse p b s)) ! b) = 0 \<longrightarrow> time (buf (snd (brelse p b s)) ! b) = 0) \<and>
       (refcnt (buf (snd (brelse p b s)) ! b) \<noteq> 0 \<longrightarrow>
          time (buf (snd (brelse p b s)) ! b) = time (buf s ! b))) \<and>
     buf (bunpin b s) = (buf s)[b := (buf s ! b)\<lparr>refcnt := refcnt (buf s ! b) - 1\<rparr>] \<and>
     refcnt (buf (bunpin b s) ! b) = refcnt (buf s ! b) - 1 \<and>
     time (buf (bunpin b s) ! b) = time (buf s ! b) \<and>
     (\<forall>j<NBUF s. time (buf (bunpin b s) ! j) = time (buf s ! j))"
proof -
  have len: "b < length (buf s)" using assms by (simp add: NBUF_def)
  have 1: "holdingsleep p (lock (buf s ! b)) \<longrightarrow>
       fst (brelse p b s) = Returned () \<and>
       refcnt (buf (snd (brelse p b s)) ! b) = refcnt (buf s ! b) - 1 \<and>
       (refcnt (buf (snd (brelse p b s)) ! b) = 0 \<longrightarrow> time (buf (snd (brelse p b s)) ! b) = 0) \<and>
       (refcnt (buf (snd (brelse p b s)) ! b) \<noteq> 0 \<longrightarrow>
          time (buf (snd (brelse p b s)) ! b) = time (buf s ! b))"
    using len by (simp add: brelse_def Let_def releasesleep_def acquire_def release_def)
  have 2: "buf (bunpin b s) = (buf s)[b := (buf s ! b)\<lparr>refcnt := refcnt (buf s ! b) - 1\<rparr>]"
    by (simp add: bunpin_def Let_def acquire_def release_def)
  have 3: "refcnt (buf (bunpin b s) ! b) = refcnt (buf s ! b) - 1"
    "time (buf (bunpin b s) ! b) = time (buf s ! b)"
    using len by (simp_all add: 2)
  have 4: "\<forall>j<NBUF s. time (buf (bunpin b s) ! j) = time (buf s ! j)"
  proof (intro allI impI)
    fix j assume "j < NBUF s"
    show "time (buf (bunpin b s) ! j) = time (buf s ! j)"
      using len by (cases "j = b") (simp_all add: 2)
  qed
  from 1 2 3 4 show ?thesis by blast
qed

text \<open>
  \<open>brelse\<close> by the holder brings buffer 0 of \<open>cache_got\<close> to \<open>refcnt = 0\<close> and resets its
  timestamp; \<open>bunpin\<close> on buffer 0 of \<open>cache_released\<close>, whose sleeplock nobody holds,
  brings it to \<open>refcnt = 0\<close> and keeps the timestamp 9.
\<close>

theorem brelse_resets_time_at_zero_witness:
  "0 < NBUF cache_got \<and> holdingsleep 7 (lock (buf cache_got ! 0)) \<and>
   refcnt (buf cache_got ! 0) = 1 \<and> time (buf cache_got ! 0) = 9 \<and>
   fst (brelse 7 0 cache_got) = Returned () \<and>
   refcnt (buf (snd (brelse 7 0 cache_got)) ! 0) = 0 \<and>
   time (buf (snd (brelse 7 0 cache_got)) ! 0) = 0 \<and>
   0 < NBUF cache_released \<and> lock (buf cache_released ! 0) = None \<and>
   refcnt (buf cache_released ! 0) = 1 \<and> time (buf cache_released ! 0) = 9 \<and>
   refcnt (buf (bunpin 0 cache_released) ! 0) = 0 \<and>
   time (buf (bunpin 0 cache_released) ! 0) = 9"
proof -
  have n: "0 < NBUF cache_got"
    by (simp add: NBUF_def cache_got_fields)
  have h: "holdingsleep 7 (lock (buf cache_got ! 0))"
    by (simp add: holdingsleep_def cache_got_fields)
  have r: "refcnt (buf cache_got ! 0) = 1" "time (buf cache_got ! 0) = 9"
    by (simp_all add: cache_got_fields)
  have n': "0 < NBUF cache_released"
    by (simp add: NBUF_def cache_released_buf)
  have r': "lock (buf cache_released ! 0) = None" "refcnt (buf cache_released ! 0) = 1"
    "time (buf cache_released ! 0) = 9"
    by (simp_all add: cache_released_buf)
  from brelse_resets_time_at_zero [OF n, of 7] h r
  have 1: "fst (brelse 7 0 cache_got) = Returned ()"
    "refcnt (buf (snd (brelse 7 0 cache_got)) ! 0) = 0"
    "time (buf (snd (brelse 7 0 cache_got)) ! 0) = 0"
    by simp_all
  from brelse_resets_time_at_zero [OF n', of 7]
  have "refcnt (buf (bunpin 0 cache_released) ! 0) = refcnt (buf cache_released ! 0) - 1"
    "time (buf (bunpin 0 cache_released) ! 0) = time (buf cache_released ! 0)"
    by blast+
  then have 2: "refcnt (buf (bunpin 0 cache_released) ! 0) = 0"
    "time (buf (bunpin 0 cache_released) ! 0) = 9"
    by (simp_all add: r')
  from n h r 1 n' r' 2 show ?thesis by blast
qed

text \<open>
  C2 as stated fails: after \<open>bread\<close>, \<open>bpin\<close> and \<open>brelse\<close> buffer 0 has \<open>refcnt = 1\<close>;
  \<open>bunpin\<close> brings it to 0 and the timestamp is still 9. This state is reachable and has an
  entry with \<open>refcnt = 0\<close> whose \<open>time\<close> is not 0.
\<close>

theorem bunpin_keeps_time_counterexample:
  "refcnt (buf cache_released ! 0) = 1 \<and>
   refcnt (buf (bunpin 0 cache_released) ! 0) = 0 \<and>
   time (buf (bunpin 0 cache_released) ! 0) = 9"
  by (simp add: bunpin_def cache_released_buf Let_def)

subsection \<open>C3: lock order in bget\<close>




subsection \<open>C4: bread returns a valid buffer\<close>

text \<open>
  C4. \<open>bread\<close> returns exactly when \<open>bget\<close> does, with the same buffer. The buffer it
  returns is in the pool, has the requested key, is locked by the caller and is valid: if
  \<open>bget\<close> delivered it valid nothing more is done, otherwise its data are what the disk
  holds for the key and \<open>valid\<close> has been set.
\<close>

theorem bread_returns_valid:
  assumes "bcache_wf s"
  shows "fst (bread p d bn t s) = fst (bget p d bn t s) \<and>
     (\<forall>b. fst (bread p d bn t s) = Returned b \<longrightarrow>
        b < NBUF s \<and>
        valid (buf (snd (bread p d bn t s)) ! b) \<and>
        dev (buf (snd (bread p d bn t s)) ! b) = d \<and>
        blockno (buf (snd (bread p d bn t s)) ! b) = bn \<and>
        lock (buf (snd (bread p d bn t s)) ! b) = Some p \<and>
        (if valid (buf (snd (bget p d bn t s)) ! b)
         then snd (bread p d bn t s) = snd (bget p d bn t s)
         else data (buf (snd (bread p d bn t s)) ! b) = disk s (d, bn)))"
proof -
  obtain r s1 where g: "bget p d bn t s = (r, s1)" by (cases "bget p d bn t s")
  have 1: "fst (bread p d bn t s) = fst (bget p d bn t s)"
    by (cases r) (simp_all add: bread_def g Let_def)
  have 2: "b < NBUF s \<and>
        valid (buf (snd (bread p d bn t s)) ! b) \<and>
        dev (buf (snd (bread p d bn t s)) ! b) = d \<and>
        blockno (buf (snd (bread p d bn t s)) ! b) = bn \<and>
        lock (buf (snd (bread p d bn t s)) ! b) = Some p \<and>
        (if valid (buf (snd (bget p d bn t s)) ! b)
         then snd (bread p d bn t s) = snd (bget p d bn t s)
         else data (buf (snd (bread p d bn t s)) ! b) = disk s (d, bn))"
    if "fst (bread p d bn t s) = Returned b" for b
  proof -
    from that 1 g have r: "r = Returned b" by simp
    from bget_Returned [OF assms, of p d bn t b s1] g r
    have f: "b < NBUF s" "NBUF s1 = NBUF s" "matches s1 d bn b" "lock (buf s1 ! b) = Some p"
      "disk s1 = disk s" by simp_all
    then have len: "b < length (buf s1)" by (simp add: NBUF_def)
    show ?thesis
      using f len by (simp add: bread_def g r Let_def virtio_disk_rw_def matches_def)
  qed
  from 1 2 show ?thesis by blast
qed

theorem bread_returns_valid_witness:
  "bcache_wf cache_fresh \<and> fst (bread 7 1 10 9 cache_fresh) = Returned 0 \<and>
   \<not> valid (buf (snd (bget 7 1 10 9 cache_fresh)) ! 0) \<and>
   valid (buf (snd (bread 7 1 10 9 cache_fresh)) ! 0) \<and>
   dev (buf (snd (bread 7 1 10 9 cache_fresh)) ! 0) = 1 \<and>
   blockno (buf (snd (bread 7 1 10 9 cache_fresh)) ! 0) = 10 \<and>
   lock (buf (snd (bread 7 1 10 9 cache_fresh)) ! 0) = Some 7 \<and>
   data (buf (snd (bread 7 1 10 9 cache_fresh)) ! 0) = [171, 205]"
proof -
  have wf: "bcache_wf cache_fresh"
    by (simp add: bcache_wf_def cache_fresh_fields)
  have g: "fst (bget 7 1 10 9 cache_fresh) = Returned 0"
    "\<not> valid (buf (snd (bget 7 1 10 9 cache_fresh)) ! 0)"
    using cache_got_fields(1,2) by (simp_all add: cache_got_def)
  have d: "disk cache_fresh (1, 10) = [171, 205]"
    by (simp add: cache_fresh_fields demo_disk_def)
  from bread_returns_valid [OF wf, of 7 1 10 9] g d wf show ?thesis by auto
qed

subsection \<open>C5: kfree pushes on the list of the owning core\<close>



subsection \<open>C6: free after allocate gives the page back\<close>



subsection \<open>C7: kalloc returns 0 exactly when every list is empty\<close>

text \<open>
  C7. \<open>kalloc\<close> on a core of the machine always returns (it never panics): the head of the
  core's own list, or, when that list is empty, the head of the first non-empty list in
  the order of the cores from 0, or 0. It returns 0 exactly when the own list and all lists
  are empty, and then the lists and the memory are unchanged.
\<close>

theorem kalloc_none_iff_all_empty:
  assumes "c < NCPU s"
  shows "fst (kalloc c s) =
       Returned (if freelist s ! c \<noteq> 0 then freelist s ! c
                 else case find (\<lambda>j. freelist s ! j \<noteq> 0) [0..<NCPU s] of
                        None \<Rightarrow> 0 | Some j \<Rightarrow> freelist s ! j) \<and>
     (fst (kalloc c s) = Returned 0 \<longleftrightarrow>
        freelist s ! c = 0 \<and> (\<forall>j<NCPU s. freelist s ! j = 0)) \<and>
     (fst (kalloc c s) = Returned 0 \<longrightarrow>
        freelist (snd (kalloc c s)) = freelist s \<and> run_next (snd (kalloc c s)) = run_next s)"
proof (cases "freelist s ! c = 0")
  case own: False
  then show ?thesis by (simp add: kalloc_own [OF assms])
next
  case empty: True
  note fb = kalloc_fallback [OF assms empty]
  show ?thesis
  proof (cases "find (\<lambda>j. freelist s ! j \<noteq> 0) [0..<NCPU s]")
    case None
    then have all: "\<forall>j<NCPU s. freelist s ! j = 0" by (simp only: find_none_all_empty)
    have z: "fst (kalloc_steal [0..<NCPU s] s) = 0" by (simp add: kalloc_steal_fst None)
    show ?thesis
      using empty all fb(3) [OF z] by (simp add: fb(1,2) kalloc_steal_fst kalloc_steal_freelist None)
  next
    case (Some j)
    then have j: "j < NCPU s" "freelist s ! j \<noteq> 0"
      by (auto simp: find_Some_iff)
    then have "\<not> (\<forall>j<NCPU s. freelist s ! j = 0)" by blast
    then show ?thesis
      using empty j by (simp add: fb(1) kalloc_steal_fst Some)
  qed
qed

theorem kalloc_none_iff_all_empty_witness:
  "0 < NCPU (kmem_zero 2) \<and> freelist (kmem_zero 2) ! 0 = 0 \<and> freelist (kmem_zero 2) ! 1 = 0 \<and>
   fst (kalloc 0 (kmem_zero 2)) = Returned 0 \<and>
   freelist (snd (kalloc 0 (kmem_zero 2))) = freelist (kmem_zero 2) \<and>
   0 < NCPU kmem_drained \<and> freelist kmem_drained ! 0 = 0 \<and> freelist kmem_drained ! 1 \<noteq> 0 \<and>
   fst (kalloc 0 kmem_drained) = Returned 0x8000"
proof -
  have z: "0 < NCPU (kmem_zero 2)" "NCPU (kmem_zero 2) = 2"
    "freelist (kmem_zero 2) ! 0 = 0" "freelist (kmem_zero 2) ! 1 = 0"
    by (simp_all add: NCPU_def kmem_zero_def replicate_two)
  have all: "\<forall>j<NCPU (kmem_zero 2). freelist (kmem_zero 2) ! j = 0"
    using z by (simp add: numeral_2_eq_2 less_Suc_eq)
  have d: "0 < NCPU kmem_drained" "NCPU kmem_drained = 2"
    "freelist kmem_drained ! 0 = 0" "freelist kmem_drained ! 1 \<noteq> 0"
    "freelist kmem_drained ! 1 = 0x8000"
    by (simp_all add: NCPU_def kmem_drained_fields)
  have f: "find (\<lambda>j. freelist kmem_drained ! j \<noteq> 0) [0..<NCPU kmem_drained] = Some 1"
    by (simp add: d(2) upt_two kmem_drained_fields)
  from kalloc_none_iff_all_empty [OF z(1)] z(3) all
  have 1: "fst (kalloc 0 (kmem_zero 2)) = Returned 0"
    "freelist (snd (kalloc 0 (kmem_zero 2))) = freelist (kmem_zero 2)" by blast+
  from kalloc_none_iff_all_empty [OF d(1)] d f
  have 2: "fst (kalloc 0 kmem_drained) = Returned 0x8000" by simp
  from z d 1 2 show ?thesis by simp
qed

subsection \<open>C8: protocol misuse is fatal\<close>

text \<open>
  C8. Misuse is fatal and happens before any effect: \<open>bwrite\<close> and \<open>brelse\<close> called by
  a process that does not hold the buffer's sleeplock panic and leave the whole state
  (disk, locks, reference counts, lock log) as it was; \<open>kfree\<close> of an address that is not
  page-aligned, lies below \<open>end\<close> or at or above \<open>PHYSTOP\<close> panics and leaves every
  free list, the memory and the lock log as they were.
\<close>

theorem misuse_panics_before_any_effect:
  "(\<not> holdingsleep p (lock (buf s ! b)) \<longrightarrow>
      bwrite p b s = (Panicked ''bwrite'', s) \<and> brelse p b s = (Panicked ''brelse'', s)) \<and>
   (unat pa mod PGSIZE \<noteq> 0 \<or> pa < kend L \<or> PHYSTOP L \<le> pa \<longrightarrow>
      kfree L pa k = (Panicked ''kfree'', k))"
  by (simp add: bwrite_def brelse_def kfree_def)

theorem misuse_panics_before_any_effect_witness:
  "\<not> holdingsleep 8 (lock (buf cache_got ! 0)) \<and>
   bwrite 8 0 cache_got = (Panicked ''bwrite'', cache_got) \<and>
   brelse 8 0 cache_got = (Panicked ''brelse'', cache_got) \<and>
   unat (0x1001 :: 64 word) mod PGSIZE \<noteq> 0 \<and>
   kfree layout_2x4 0x1001 kmem_2x4 = (Panicked ''kfree'', kmem_2x4) \<and>
   PHYSTOP layout_2x4 \<le> 0x9000 \<and>
   kfree layout_2x4 0x9000 kmem_2x4 = (Panicked ''kfree'', kmem_2x4) \<and>
   (0x0000 :: 64 word) < kend layout_2x4 \<and>
   kfree layout_2x4 0x0000 kmem_2x4 = (Panicked ''kfree'', kmem_2x4)"
proof -
  have h: "\<not> holdingsleep 8 (lock (buf cache_got ! 0))"
    by (simp add: holdingsleep_def cache_got_fields)
  have a: "unat (0x1001 :: 64 word) mod PGSIZE \<noteq> 0"
    by (simp add: PGSIZE_def)
  have b: "PHYSTOP layout_2x4 \<le> 0x9000"
    by (simp add: layout_2x4_def)
  have c: "(0x0000 :: 64 word) < kend layout_2x4"
    by (simp add: layout_2x4_def)
  show ?thesis
    using h a b c
      misuse_panics_before_any_effect [of 8 cache_got 0 "0x1001" layout_2x4 kmem_2x4]
      misuse_panics_before_any_effect [of 8 cache_got 0 "0x9000" layout_2x4 kmem_2x4]
      misuse_panics_before_any_effect [of 8 cache_got 0 "0x0000" layout_2x4 kmem_2x4]
    by blast
qed

subsection \<open>C9: the index of kfree is in bounds only if the layout fits\<close>

text \<open>
  C9. If \<open>PHYSTOP\<close> does not exceed \<open>end + n * NMEM\<close> (and \<open>NMEM\<close> is not 0), every
  address that \<open>kfree\<close> accepts has its quotient \<open>(pa - end) / NMEM\<close> below \<open>n\<close>. With
  \<open>n = NCPU\<close> (an \<open>int\<close>), \<open>kfree\<close> of an accepted address then indexes \<open>kmem\<close> in
  bounds: it returns and the list it writes is list \<open>(pa - end) / NMEM\<close> of the \<open>NCPU\<close>
  lists. \<open>kfree\<close> itself does not check the layout: for an accepted address it returns
  exactly when the quotient is below \<open>NCPU\<close>, and otherwise it indexes \<open>kmem\<close> out of
  bounds, without a panic. With two cores and \<open>PHYSTOP\<close> one page above the two
  partitions, the address 0x9000 is accepted and its index is 2.
\<close>

theorem kfree_index_within_kmem:
  "(kfree_accepts L pa \<and> NMEM L \<noteq> 0 \<and>
      unat (PHYSTOP L) \<le> unat (kend L) + n * unat (NMEM L) \<longrightarrow> unat (owner L pa) < n) \<and>
   (kfree_accepts L pa \<and> NMEM L \<noteq> 0 \<and> NCPU s < 2 ^ 31 \<and>
      unat (PHYSTOP L) \<le> unat (kend L) + NCPU s * unat (NMEM L) \<longrightarrow>
      unat (owner L pa) < NCPU s \<and>
      fst (kfree L pa s) = Returned () \<and>
      freelist (snd (kfree L pa s)) = (freelist s)[unat (owner L pa) := pa] \<and>
      length (freelist (snd (kfree L pa s))) = NCPU s) \<and>
   (kfree_accepts L pa \<and> NMEM L \<noteq> 0 \<and> unat (owner L pa) < 2 ^ 31 \<longrightarrow>
      (fst (kfree L pa s) = Returned () \<longleftrightarrow> unat (owner L pa) < NCPU s) \<and>
      (NCPU s \<le> unat (owner L pa) \<longrightarrow>
         fst (kfree L pa s) = Undefined ''kfree: kmem index'' \<and>
         freelist (snd (kfree L pa s)) = freelist s)) \<and>
   kfree_accepts layout_wide 0x9000 \<and>
   \<not> unat (PHYSTOP layout_wide) \<le> unat (kend layout_wide) + 2 * unat (NMEM layout_wide) \<and>
   unat (owner layout_wide 0x9000) = 2 \<and>
   fst (kfree layout_wide 0x9000 (kmem_zero 2)) = Undefined ''kfree: kmem index''"
proof -
  have 1: "kfree_accepts L pa \<and> NMEM L \<noteq> 0 \<and>
      unat (PHYSTOP L) \<le> unat (kend L) + n * unat (NMEM L) \<longrightarrow> unat (owner L pa) < n"
    using owner_bound by blast
  have a: "unat (owner L pa) < NCPU s \<and>
      fst (kfree L pa s) = Returned () \<and>
      freelist (snd (kfree L pa s)) = (freelist s)[unat (owner L pa) := pa] \<and>
      length (freelist (snd (kfree L pa s))) = NCPU s"
    if acc: "kfree_accepts L pa" and wf: "kmem_wf L s"
  proof -
    note i = kfree_index(1) [OF wf acc]
    show ?thesis using i by (simp add: kfree_accepted [OF wf acc] NCPU_def)
  qed
  have 2: "kfree_accepts L pa \<and> NMEM L \<noteq> 0 \<and> NCPU s < 2 ^ 31 \<and>
      unat (PHYSTOP L) \<le> unat (kend L) + NCPU s * unat (NMEM L) \<longrightarrow>
      unat (owner L pa) < NCPU s \<and>
      fst (kfree L pa s) = Returned () \<and>
      freelist (snd (kfree L pa s)) = (freelist s)[unat (owner L pa) := pa] \<and>
      length (freelist (snd (kfree L pa s))) = NCPU s"
    using a unfolding kmem_wf_def by blast
  have b: "(fst (kfree L pa s) = Returned () \<longleftrightarrow> unat (owner L pa) < NCPU s) \<and>
      (NCPU s \<le> unat (owner L pa) \<longrightarrow>
         fst (kfree L pa s) = Undefined ''kfree: kmem index'' \<and>
         freelist (snd (kfree L pa s)) = freelist s)"
    if acc: "kfree_accepts L pa" and nz: "NMEM L \<noteq> 0" and small: "unat (owner L pa) < 2 ^ 31"
  proof (cases "unat (owner L pa) < NCPU s")
    case True
    from acc have ok: "\<not> (unat pa mod PGSIZE \<noteq> 0 \<or> pa < kend L \<or> PHYSTOP L \<le> pa)"
      by (simp add: kfree_accepts_def)
    have c: "sint (ucast ((pa - kend L) div NMEM L) :: 32 word) = int (unat (owner L pa))"
      using small unfolding owner_def by (rule sint_ucast_small)
    have "int (unat (owner L pa)) < int (NCPU s)"
      using True by (simp only: of_nat_less_iff)
    then have lt: "\<not> int (NCPU s) \<le> uint (owner L pa)" by simp
    have "fst (kfree L pa s) = Returned ()"
      unfolding kfree_def using ok nz c lt by (simp add: Let_def)
    then show ?thesis using True by simp
  next
    case False
    then have ge: "NCPU s \<le> unat (owner L pa)" by simp
    show ?thesis
      using False by (simp add: kfree_out_of_bounds [OF acc nz ge small])
  qed
  have 3: "kfree_accepts L pa \<and> NMEM L \<noteq> 0 \<and> unat (owner L pa) < 2 ^ 31 \<longrightarrow>
      (fst (kfree L pa s) = Returned () \<longleftrightarrow> unat (owner L pa) < NCPU s) \<and>
      (NCPU s \<le> unat (owner L pa) \<longrightarrow>
         fst (kfree L pa s) = Undefined ''kfree: kmem index'' \<and>
         freelist (snd (kfree L pa s)) = freelist s)"
    using b by blast
  have 4: "kfree_accepts layout_wide 0x9000"
    by (simp add: kfree_accepts_def layout_wide_def PGSIZE_def)
  have 5: "\<not> unat (PHYSTOP layout_wide) \<le> unat (kend layout_wide) + 2 * unat (NMEM layout_wide)"
    by (simp add: layout_wide_def)
  have 6: "unat (owner layout_wide 0x9000) = 2"
    by (simp add: owner_def layout_wide_def unat_div)
  have 7: "fst (kfree layout_wide 0x9000 (kmem_zero 2)) = Undefined ''kfree: kmem index''"
    by (simp add: kfree_def layout_wide_def PGSIZE_def kmem_zero_def NCPU_def memset_page_def Let_def)
  from 1 2 3 4 5 6 7 show ?thesis by blast
qed

text \<open>
  With the fitting layout, page 0x8000 is pushed on list 1 of 2. With \<open>PHYSTOP\<close> one page
  higher, \<open>kfree\<close> of 0x9000 on the initialised allocator leaves the array.
\<close>

theorem kfree_index_within_kmem_witness:
  "kfree_accepts layout_2x4 0x8000 \<and> NMEM layout_2x4 \<noteq> 0 \<and>
   NCPU (snd (kalloc 0 kmem_drained)) = 2 \<and>
   unat (PHYSTOP layout_2x4) \<le> unat (kend layout_2x4) + 2 * unat (NMEM layout_2x4) \<and>
   unat (owner layout_2x4 0x8000) < 2 \<and>
   freelist (snd (kalloc 0 kmem_drained)) = [0, 0x7000] \<and>
   fst (kfree layout_2x4 0x8000 (snd (kalloc 0 kmem_drained))) = Returned () \<and>
   freelist (snd (kfree layout_2x4 0x8000 (snd (kalloc 0 kmem_drained)))) = [0, 0x8000] \<and>
   kfree_accepts layout_wide 0x9000 \<and> NMEM layout_wide \<noteq> 0 \<and>
   unat (owner layout_wide 0x9000) = 2 \<and> NCPU kmem_2x4 = 2 \<and>
   fst (kfree layout_wide 0x9000 kmem_2x4) = Undefined ''kfree: kmem index'' \<and>
   freelist (snd (kfree layout_wide 0x9000 kmem_2x4)) = [0x4000, 0x8000]"
proof -
  have a: "NMEM layout_2x4 \<noteq> 0"
    "unat (PHYSTOP layout_2x4) \<le> unat (kend layout_2x4) + 2 * unat (NMEM layout_2x4)"
    by (simp_all add: layout_2x4_def)
  have f: "freelist (snd (kalloc 0 kmem_drained)) = [0, 0x7000]"
    by (simp add: kalloc_def NCPU_def memset_page_def acquire_def release_def Let_def
        kmem_drained_fields upt_two)
  have n: "NCPU (snd (kalloc 0 kmem_drained)) = 2"
    by (simp add: NCPU_def f)
  have o: "unat (owner layout_2x4 0x8000) = 1"
    by (rule layout_2x4_owner)
  have w: "kfree_accepts layout_wide 0x9000" "NMEM layout_wide \<noteq> 0"
    "unat (owner layout_wide 0x9000) = 2"
    by (simp_all add: kfree_accepts_def owner_def layout_wide_def PGSIZE_def unat_div)
  have n2: "NCPU kmem_2x4 = 2" "freelist kmem_2x4 = [0x4000, 0x8000]"
    by (simp_all add: NCPU_def kmem_2x4_fields)
  from kfree_index_within_kmem [of layout_2x4 "0x8000" 2 "snd (kalloc 0 kmem_drained)"]
    layout_2x4_accepts a f n o
  have 1: "unat (owner layout_2x4 0x8000) < 2"
    "fst (kfree layout_2x4 0x8000 (snd (kalloc 0 kmem_drained))) = Returned ()"
    "freelist (snd (kfree layout_2x4 0x8000 (snd (kalloc 0 kmem_drained)))) = [0, 0x8000]"
    by simp_all
  from kfree_index_within_kmem [of layout_wide "0x9000" 2 kmem_2x4] w n2
  have 2: "fst (kfree layout_wide 0x9000 kmem_2x4) = Undefined ''kfree: kmem index''"
    "freelist (snd (kfree layout_wide 0x9000 kmem_2x4)) = [0x4000, 0x8000]"
    by simp_all
  from layout_2x4_accepts a n f 1 w n2 2 show ?thesis by simp
qed

subsection \<open>C10: only the scan hit changes a bucket\<close>

text \<open>
  C10, as amended. \<open>bget\<close> changes the buckets only when its first loop misses and the
  scan of the pool hits entry \<open>i\<close>: then bucket \<open>i mod NBUCKET\<close> is set to \<open>i\<close>. The miss
  path leaves every bucket as it was. The buffer it recycles is found by the first loop of
  the next request exactly when some bucket already points at that buffer.
\<close>

theorem only_full_scan_hit_installs:
  assumes "bcache_wf s"
  shows "bucket (snd (bget p d bn t s)) =
       (if fast_path_visible s d bn then bucket s
        else case find (matches s d bn) [0..<NBUF s] of
               Some i \<Rightarrow> (bucket s)[i mod NBUCKET s := i]
             | None \<Rightarrow> bucket s) \<and>
     ((\<forall>j<NBUF s. \<not> matches s d bn j) \<longrightarrow> bucket (snd (bget p d bn t s)) = bucket s) \<and>
     (\<forall>i. (\<forall>j<NBUF s. \<not> matches s d bn j) \<and> i < NBUF s \<and> refcnt (buf s ! i) = 0 \<and>
          (\<forall>j<i. refcnt (buf s ! j) \<noteq> 0) \<longrightarrow>
          (fast_path_visible (snd (bget p d bn t s)) d bn \<longleftrightarrow> i \<in> set (bucket s)))"
proof -
  have 1: "bucket (snd (bget p d bn t s)) =
       (if fast_path_visible s d bn then bucket s
        else case find (matches s d bn) [0..<NBUF s] of
               Some i \<Rightarrow> (bucket s)[i mod NBUCKET s := i]
             | None \<Rightarrow> bucket s)"
  proof (cases rule: bget_cases [of s d bn])
    case (fast k)
    then have "fast_path_visible s d bn" by (auto simp: fast_path_visible_iff)
    then show ?thesis
      by (simp add: bget_fast_hit [OF fast, of p t] acquiresleep_frame)
  next
    case (scan i)
    have nf: "\<forall>k<NBUCKET s. \<not> matches s d bn (bucket s ! k)"
      using scan(1) by (simp add: fast_path_visible_iff)
    have "find (matches s d bn) [0..<NBUF s] = Some i"
      using scan(2,4,3) by (rule find_upt_first)
    then show ?thesis
      using scan(1) by (simp add: bget_scan_hit_path [OF nf scan(2,3,4), of p t] acquiresleep_frame)
  next
    case (recycle i)
    have nf: "\<forall>k<NBUCKET s. \<not> matches s d bn (bucket s ! k)"
      using recycle(1) by (simp add: fast_path_visible_iff)
    have "find (matches s d bn) [0..<NBUF s] = None"
      using recycle(2) by (rule find_upt_none)
    then show ?thesis
      using recycle(1)
      by (simp add: bget_recycle_path [OF nf recycle(2,3,4,5), of p t] acquiresleep_frame)
  next
    case panic
    have nf: "\<forall>k<NBUCKET s. \<not> matches s d bn (bucket s ! k)"
      using panic(1) by (simp add: fast_path_visible_iff)
    have "find (matches s d bn) [0..<NBUF s] = None"
      using panic(2) by (rule find_upt_none)
    then show ?thesis
      using panic(1) by (simp add: bget_panic_path [OF nf panic(2,3), of p t])
  qed
  have 2: "bucket (snd (bget p d bn t s)) = bucket s" if nm: "\<forall>j<NBUF s. \<not> matches s d bn j"
  proof -
    have "find (matches s d bn) [0..<NBUF s] = None"
      using nm by (rule find_upt_none)
    then show ?thesis by (simp add: 1)
  qed
  have 3: "fast_path_visible (snd (bget p d bn t s)) d bn \<longleftrightarrow> i \<in> set (bucket s)"
    if nm: "\<forall>j<NBUF s. \<not> matches s d bn j" and i: "i < NBUF s" "refcnt (buf s ! i) = 0"
      "\<forall>j<i. refcnt (buf s ! j) \<noteq> 0" for i
  proof -
    let ?s' = "snd (bget p d bn t s)"
    have nf: "\<forall>k<NBUCKET s. \<not> matches s d bn (bucket s ! k)"
      using assms nm by (rule wf_bucket_miss)
    have eq: "bget p d bn t s =
       acquiresleep p i
         (s\<lparr>locklog := locklog s @ bucket_events [0..<NBUCKET s] @ [Acquire BcacheLock, Release BcacheLock],
            buf := (buf s)[i := (buf s ! i)\<lparr>dev := d, blockno := bn, valid := False, refcnt := 1, time := t\<rparr>]\<rparr>)"
      using nf nm i(1,3,2) by (rule bget_recycle_path)
    have len: "i < length (buf s)" using i(1) by (simp add: NBUF_def)
    have b: "bucket ?s' = bucket s" using nm by (rule 2)
    have m: "matches ?s' d bn b \<longleftrightarrow> b = i" if "b < NBUF s" for b
    proof (cases "b = i")
      case True
      then show ?thesis using len by (simp add: eq acquiresleep_buf matches_def)
    next
      case False
      have "buf ?s' ! b = buf s ! b"
        using False by (simp add: eq acquiresleep_buf)
      then show ?thesis using False nm that by (simp add: matches_def)
    qed
    have "fast_path_visible ?s' d bn \<longleftrightarrow> (\<exists>b\<in>set (bucket s). matches ?s' d bn b)"
      by (simp add: fast_path_visible_def b list_ex_iff)
    also have "\<dots> \<longleftrightarrow> (\<exists>b\<in>set (bucket s). b = i)"
    proof (rule bex_cong [OF refl])
      fix b assume "b \<in> set (bucket s)"
      with assms have "b < NBUF s" by (simp add: bcache_wf_def NBUF_def list_all_iff)
      then show "matches ?s' d bn b \<longleftrightarrow> b = i" by (rule m)
    qed
    finally show ?thesis by auto
  qed
  from 1 2 3 show ?thesis by blast
qed

theorem only_full_scan_hit_installs_witness:
  "bcache_wf cache_three \<and> \<not> fast_path_visible cache_three 1 12 \<and>
   find (matches cache_three 1 12) [0..<NBUF cache_three] = Some 2 \<and>
   NBUCKET cache_three = 2 \<and> bucket cache_three = [0, 1] \<and>
   bucket (snd (bget 8 1 12 6 cache_three)) = [2, 1] \<and>
   bcache_wf cache_fresh \<and> NBUF cache_fresh = 2 \<and>
   \<not> matches cache_fresh 1 10 0 \<and> \<not> matches cache_fresh 1 10 1 \<and>
   refcnt (buf cache_fresh ! 0) = 0 \<and> 0 \<in> set (bucket cache_fresh) \<and>
   bucket (snd (bget 7 1 10 9 cache_fresh)) = bucket cache_fresh \<and>
   fast_path_visible (snd (bget 7 1 10 9 cache_fresh)) 1 10"
proof -
  have wf3: "bcache_wf cache_three"
    by (simp add: bcache_wf_def cache_three_fields)
  have v: "\<not> fast_path_visible cache_three 1 12"
    by (simp add: fast_path_visible_def matches_def cache_three_fields)
  have f: "find (matches cache_three 1 12) [0..<NBUF cache_three] = Some 2"
    by (simp add: NBUF_def matches_def cache_three_fields upt_rec eval_nat_numeral)
  have nb: "NBUCKET cache_three = 2" "bucket cache_three = [0, 1]"
    by (simp_all add: NBUCKET_def cache_three_fields)
  have wf2: "bcache_wf cache_fresh"
    by (simp add: bcache_wf_def cache_fresh_fields)
  have n2: "NBUF cache_fresh = 2"
    by (simp add: NBUF_def cache_fresh_fields)
  have m: "\<not> matches cache_fresh 1 10 0" "\<not> matches cache_fresh 1 10 1"
    by (simp_all add: matches_def cache_fresh_fields)
  have nomatch: "\<forall>j<NBUF cache_fresh. \<not> matches cache_fresh 1 10 j"
    using m by (simp add: n2 less_Suc_eq eval_nat_numeral)
  have r: "refcnt (buf cache_fresh ! 0) = 0" "0 \<in> set (bucket cache_fresh)"
    by (simp_all add: cache_fresh_fields)
  have i: "0 < NBUF cache_fresh" "\<forall>j<0::nat. refcnt (buf cache_fresh ! j) \<noteq> 0"
    by (simp_all add: n2)
  from only_full_scan_hit_installs [OF wf3, of 8 1 12 6] v f nb
  have a: "bucket (snd (bget 8 1 12 6 cache_three)) = [2, 1]" by simp
  from only_full_scan_hit_installs [OF wf2, of 7 1 10 9] nomatch r i
  have b: "bucket (snd (bget 7 1 10 9 cache_fresh)) = bucket cache_fresh"
    "fast_path_visible (snd (bget 7 1 10 9 cache_fresh)) 1 10" by blast+
  from wf3 v f nb a wf2 n2 m r b show ?thesis by blast
qed

text \<open>
  C10 as stated fails: after \<open>binit\<close> the only bucket points at buffer 0. The first
  request for block (1, 10) takes the miss path and recycles buffer 0 without touching the
  bucket; the block is then visible to the first loop, and the next request is served
  there, with no scan of the pool in between.
\<close>

theorem recycled_entry_fast_visible_counterexample:
  "find (matches cache_fresh 1 10) [0..<NBUF cache_fresh] = None \<and>
   fst (bget 7 1 10 9 cache_fresh) = Returned 0 \<and>
   emitted cache_fresh cache_got =
     [Acquire (BucketLock 0), Release (BucketLock 0), Acquire BcacheLock, Release BcacheLock,
      Acquire (BufLock 0)] \<and>
   bucket cache_got = bucket cache_fresh \<and>
   fast_path_visible cache_got 1 10 \<and>
   fst (bget 7 1 10 12 cache_put) = Returned 0 \<and>
   emitted cache_put (snd (bget 7 1 10 12 cache_put)) =
     [Acquire (BucketLock 0), Release (BucketLock 0), Acquire (BufLock 0)]"
proof -
  have a: "find (matches cache_fresh 1 10) [0..<NBUF cache_fresh] = None"
    by (simp add: NBUF_def matches_def cache_fresh_fields upt_rec eval_nat_numeral)
  have b: "emitted cache_fresh cache_got =
     [Acquire (BucketLock 0), Release (BucketLock 0), Acquire BcacheLock, Release BcacheLock,
      Acquire (BufLock 0)]"
    by (simp add: emitted_def cache_got_fields cache_fresh_fields)
  have c: "bucket cache_got = bucket cache_fresh"
    by (simp add: cache_got_fields cache_fresh_fields)
  have d: "fast_path_visible cache_got 1 10"
    by (simp add: fast_path_visible_def matches_def cache_got_fields)
  from a b c d cache_got_fields(1) bget_on_cache_put show ?thesis by blast
qed

end
